theory Spec2Isabelle
  imports Main "HOL-Library.Word"
begin

unbundle bit_operations_syntax

section \<open>The cache benchmark (benchmark.c): data model\<close>

text \<open>
  The machine integers of the C source are words: \<open>size_t\<close>, \<open>long\<close>, \<open>time_t\<close> and
  \<open>loff_t\<close> are 64 bits wide, \<open>int\<close> is 32 bits wide (read with \<open>sint\<close> where the C type
  is signed), the elements of the workload buffers are \<open>uint32_t\<close> and the prologue
  sees the same region as bytes. Arithmetic on \<open>int\<close> wraps around, which is what the
  compiler emits for the workloads (they are compiled with \<open>#pragma GCC optimize ("O0")\<close>).
  The parameters that the source calls \<open>length\<close> and \<open>size\<close> are \<open>len\<close> and \<open>sz\<close>
  here, the two names being constants of the logic.
\<close>

type_synonym size_t = "64 word"
type_synonym c_long = "64 word"
type_synonym c_int = "32 word"
type_synonym uint32_t = "32 word"
type_synonym uint8_t = "8 word"

text \<open>
  Two things end a run abnormally: an access outside the buffer (undefined behaviour in
  C, an error value here, carrying the offending index), and \<open>die\<close>, which prints the
  message with \<open>perror\<close> and calls \<open>exit(1)\<close>.
\<close>

datatype error = OutOfBounds int | Die string

subsection \<open>bytes_to_prefix\<close>

text \<open>
  \<open>static inline void bytes_to_prefix(size_t *bytes, char **s)\<close>: the two out-parameters
  are returned as a pair. \<open>*s\<close> is a \<open>char *\<close> that may be null, hence a
  \<open>string option\<close>; the three \<open>if\<close> statements of the source run one after the other.
\<close>

definition bytes_to_prefix :: "size_t \<Rightarrow> string option \<Rightarrow> size_t \<times> string option" where
  "bytes_to_prefix bytes s =
     (let b = bytes;
          mask = (push_bit 10 1 - 1 :: size_t)
      in if s \<noteq> None then
           (let (b, s) = (if b AND mask = 0 then (drop_bit 10 b, Some ''k'') else (b, s));
                (b, s) = (if b AND mask = 0 then (drop_bit 10 b, Some ''M'') else (b, s));
                (b, s) = (if b AND mask = 0 then (drop_bit 10 b, Some ''G'') else (b, s))
            in (b, s))
         else (b, s))"

subsection \<open>Resource snapshots and the clock\<close>

text \<open>
  The fields of \<open>struct rusage\<close> and \<open>struct timeval\<close> that the program reads. A call to
  \<open>getrusage\<close> or \<open>gettimeofday\<close> is modelled by its outcome, given to the function as
  an argument: \<open>None\<close> when the call fails, the structure it fills in otherwise.
\<close>

record rusage =
  ru_majflt :: c_long
  ru_minflt :: c_long
  ru_nvcsw :: c_long
  ru_nivcsw :: c_long

record timeval =
  tv_sec :: c_long
  tv_usec :: c_long

subsection \<open>benchmark_prologue\<close>

text \<open>
  The prologue sees the region as bytes. Its state is the region together with the
  memory events so far: \<open>Touch a\<close> is the store to offset \<open>a\<close> of the region,
  \<open>Clflush a\<close> the \<open>clflush\<close> instruction on the address at offset \<open>a\<close>.
  \<open>touch\<close> is \<open>((unsigned char volatile *)buf)[i] = buf[i]\<close>: it reads the byte and
  stores it back. \<open>clflush\<close> changes no byte of the region.
\<close>

datatype mem_event = Touch nat | Clflush nat

type_synonym prologue_state = "uint8_t list \<times> mem_event list"

definition touch :: "prologue_state \<Rightarrow> int \<Rightarrow> error + prologue_state" where
  "touch st i =
     (case st of (buf, ev) \<Rightarrow>
        if 0 \<le> i \<and> i < int (length buf)
        then Inr (buf[nat i := buf ! nat i], ev @ [Touch (nat i)])
        else Inl (OutOfBounds i))"

definition clflush :: "prologue_state \<Rightarrow> nat \<Rightarrow> prologue_state" where
  "clflush st p = (case st of (buf, ev) \<Rightarrow> (buf, ev @ [Clflush p]))"

text \<open>
  The \<open>do \<dots> while\<close> loop of benchmark_prologue, with the page size returned by
  \<open>getpagesize\<close> as a parameter. The source passes \<open>buf\<close> itself to \<open>clflush\<close>, that
  is offset 0, in every round. With a page size of 0 the loop does not end, so it is a
  partial function.
\<close>

partial_function (option) prologue_loop ::
  "size_t \<Rightarrow> prologue_state \<Rightarrow> c_long \<Rightarrow> size_t \<Rightarrow> (error + prologue_state) option" where
  "prologue_loop page_size st i sz =
     (case touch st (sint i) of
        Inl e \<Rightarrow> Some (Inl e)
      | Inr st1 \<Rightarrow>
          (let st2 = clflush st1 0 in
           if sz < page_size then Some (Inr st2)
           else
             (let sz' = sz - page_size;
                  i' = i + page_size
              in if sz' \<noteq> 0 then prologue_loop page_size st2 i' sz' else Some (Inr st2))))"

declare prologue_loop.simps [code]

text \<open>The two calls after the loop; \<open>Inl\<close> carries the message given to \<open>die\<close>.\<close>

definition prologue_snapshots :: "rusage option \<Rightarrow> timeval option \<Rightarrow> string + rusage \<times> timeval" where
  "prologue_snapshots getrusage_res gettimeofday_res =
     (case getrusage_res of
        None \<Rightarrow> Inl ''getrusage()''
      | Some ru \<Rightarrow>
          (case gettimeofday_res of
             None \<Rightarrow> Inl ''gettimeofday()''
           | Some tv \<Rightarrow> Inr (ru, tv)))"

record prologue_result =
  region :: "uint8_t list"
  mem_events :: "mem_event list"
  susage_out :: rusage
  start_out :: timeval

definition benchmark_prologue ::
  "size_t \<Rightarrow> rusage option \<Rightarrow> timeval option \<Rightarrow> uint8_t list \<Rightarrow> size_t
    \<Rightarrow> (error + prologue_result) option" where
  "benchmark_prologue page_size getrusage_res gettimeofday_res buf sz =
     (case prologue_loop page_size (buf, []) 0 sz of
        None \<Rightarrow> None
      | Some (Inl e) \<Rightarrow> Some (Inl e)
      | Some (Inr (buf', ev)) \<Rightarrow>
          (case prologue_snapshots getrusage_res gettimeofday_res of
             Inl msg \<Rightarrow> Some (Inl (Die msg))
           | Inr (ru, tv) \<Rightarrow>
               Some (Inr \<lparr>region = buf', mem_events = ev, susage_out = ru, start_out = tv\<rparr>)))"

subsection \<open>benchmark_epilogue\<close>

text \<open>
  \<open>printf\<close> conversions: \<open>dec\<close> writes a number in decimal, \<open>fmt_lu w\<close> is \<open>%<w>lu\<close>
  (and \<open>%<w>zu\<close>), right-aligned in at least \<open>w\<close> columns, \<open>fmt_s\<close> is \<open>%s\<close>.
\<close>

definition digit :: "nat \<Rightarrow> char" where
  "digit n = ''0123456789'' ! n"

function dec :: "nat \<Rightarrow> string" where
  "dec n = (if n < 10 then [digit n] else dec (n div 10) @ [digit (n mod 10)])"
  by pat_completeness auto
termination
  by (relation "measure id") auto

declare dec.simps [simp del]

definition pad_left :: "nat \<Rightarrow> string \<Rightarrow> string" where
  "pad_left w s = replicate (w - length s) CHR '' '' @ s"

definition fmt_lu :: "nat \<Rightarrow> 64 word \<Rightarrow> string" where
  "fmt_lu w v = pad_left w (dec (unat v))"

definition fmt_s :: "string option \<Rightarrow> string" where
  "fmt_s s = (case s of None \<Rightarrow> ''(null)'' | Some str \<Rightarrow> str)"

text \<open>\<open>timediff\<close>: the elapsed microseconds, in \<open>time_t\<close> arithmetic; dies when the clock
  cannot be read.\<close>

definition timediff :: "timeval \<Rightarrow> timeval option \<Rightarrow> string + c_long" where
  "timediff start gettimeofday_res =
     (case gettimeofday_res of
        None \<Rightarrow> Inl ''gettimeofday()''
      | Some stop \<Rightarrow>
          Inr ((tv_sec stop - tv_sec start) * 1000000 + tv_usec stop - tv_usec start))"

text \<open>
  \<open>benchmark_epilogue\<close> returns the second snapshot (stored in the global \<open>eusage\<close>)
  and the line it prints; \<open>susage\<close> is the global the prologue filled in.
\<close>

definition benchmark_epilogue ::
  "rusage \<Rightarrow> timeval \<Rightarrow> size_t \<Rightarrow> timeval option \<Rightarrow> rusage option \<Rightarrow> string + rusage \<times> string" where
  "benchmark_epilogue susage start step gettimeofday_res getrusage_res =
     (case timediff start gettimeofday_res of
        Inl msg \<Rightarrow> Inl msg
      | Inr diff \<Rightarrow>
          (case getrusage_res of
             None \<Rightarrow> Inl ''getrusage()''
           | Some eusage \<Rightarrow>
               (let prefix = Some '' '';
                    (step, prefix) = bytes_to_prefix step prefix
                in Inr (eusage,
                     ''step: '' @ fmt_lu 4 step @ fmt_s prefix
                     @ '', diff: '' @ fmt_lu 6 diff
                     @ ''(us) hf: '' @ fmt_lu 2 (ru_majflt eusage - ru_majflt susage)
                     @ '', sf '' @ fmt_lu 2 (ru_minflt eusage - ru_minflt susage)
                     @ '', nvcs: '' @ fmt_lu 1 (ru_nvcsw eusage - ru_nvcsw susage)
                     @ '', nivcs: '' @ fmt_lu 2 (ru_nivcsw eusage - ru_nivcsw susage)
                     @ [CHR 0x0A]))))"

subsection \<open>The workloads\<close>

text \<open>
  A workload runs on a buffer of \<open>uint32_t\<close> elements. The state it threads through its
  loop is the buffer together with the list of element offsets accessed so far, in
  order; the list is what an instrumented buffer would record and has no influence on
  the run. \<open>update_elem f st i\<close> is the read-modify-write \<open>buf[i] = f(buf[i])\<close> at the
  signed index \<open>i\<close>.
\<close>

type_synonym workload_state = "uint32_t list \<times> nat list"

definition update_elem :: "(uint32_t \<Rightarrow> uint32_t) \<Rightarrow> workload_state \<Rightarrow> int \<Rightarrow> error + workload_state" where
  "update_elem f st i =
     (case st of (buf, log) \<Rightarrow>
        if 0 \<le> i \<and> i < int (length buf)
        then Inr (buf[nat i := f (buf ! nat i)], log @ [nat i])
        else Inl (OutOfBounds i))"

text \<open>
  \<open>ffs\<close> of the C library: the position of the least significant set bit, counting
  from 1, and 0 for 0. The source uses it to turn \<open>sizeof(uint32_t)\<close> into a shift.
\<close>

definition ffs :: "c_int \<Rightarrow> nat" where
  "ffs x = (if x = 0 then 0 else Suc (length (takeWhile (\<lambda>n. \<not> bit x n) [0..<32])))"

definition sizeof_uint32_t :: c_int where "sizeof_uint32_t = 4"

text \<open>
  \<open>static void bench(uint32_t *buf, size_t length, int step)\<close>. The loop variable \<open>i\<close>
  is an \<open>int\<close>; the comparison \<open>i < length\<close> converts it to \<open>size_t\<close> (sign extension,
  then an unsigned comparison) and \<open>i += step\<close> is 32-bit addition. With \<open>step = 0\<close>
  the loop does not end, so the loop is a partial function: \<open>None\<close> is a run that
  never returns.
\<close>

partial_function (option) bench_loop ::
  "workload_state \<Rightarrow> size_t \<Rightarrow> c_int \<Rightarrow> c_int \<Rightarrow> (error + workload_state) option" where
  "bench_loop st len step i =
     (if (scast i :: size_t) < len then
        (case update_elem (\<lambda>v. v * 3) st (sint i) of
           Inl e \<Rightarrow> Some (Inl e)
         | Inr st' \<Rightarrow> bench_loop st' len step (i + step))
      else Some (Inr st))"

declare bench_loop.simps [code]

definition bench :: "uint32_t list \<Rightarrow> size_t \<Rightarrow> c_int \<Rightarrow> (error + workload_state) option" where
  "bench buf len step =
     (let shift = ffs sizeof_uint32_t - 1;
          len = drop_bit shift len
      in bench_loop (buf, []) len step 0)"

text \<open>
  \<open>static void bench1(uint32_t *buf, size_t length, int limit)\<close>. The index
  \<open>(i * 16) & lengthMod\<close> multiplies in \<open>int\<close>, converts the product to \<open>size_t\<close> and
  masks it. The loop counts \<open>i\<close> up to \<open>limit\<close> and always ends.
\<close>

lemma sint_succ: "(i :: c_int) <s limit \<Longrightarrow> sint (i + 1) = sint i + 1"
proof -
  assume "i <s limit"
  then have "sint i < sint limit" by (simp add: word_sless_alt)
  moreover have "sint limit < 2 ^ 31" using sint_lt [of limit] by simp
  moreover have "- (2 ^ 31) \<le> sint i" using sint_ge [of i] by simp
  ultimately have "signed_take_bit 31 (sint i + 1) = sint i + 1"
    by (intro signed_take_bit_int_eq_self) auto
  then show ?thesis by (simp add: sint_word_add)
qed

function bench1_loop ::
  "workload_state \<Rightarrow> size_t \<Rightarrow> c_int \<Rightarrow> c_int \<Rightarrow> error + workload_state" where
  "bench1_loop st lengthMod limit i =
     (if i <s limit then
        (case update_elem (\<lambda>v. v + 1) st (uint ((scast (i * 16) :: size_t) AND lengthMod)) of
           Inl e \<Rightarrow> Inl e
         | Inr st' \<Rightarrow> bench1_loop st' lengthMod limit (i + 1))
      else Inr st)"
  by pat_completeness auto
termination
  by (relation "measure (\<lambda>(st, lengthMod, limit, i). nat (sint limit - sint i))")
     (auto simp: word_sless_alt sint_succ)

declare bench1_loop.simps [simp del]

definition bench1 :: "uint32_t list \<Rightarrow> size_t \<Rightarrow> c_int \<Rightarrow> error + workload_state" where
  "bench1 buf len limit = (let lengthMod = len - 1 in bench1_loop (buf, []) lengthMod limit 0)"

text \<open>\<open>static void bench2(uint32_t *buf, int count)\<close>: two increments of element 0 per round.\<close>

function bench2_loop :: "workload_state \<Rightarrow> c_int \<Rightarrow> c_int \<Rightarrow> error + workload_state" where
  "bench2_loop st count i =
     (if i <s count then
        (case update_elem (\<lambda>v. v + 1) st 0 of
           Inl e \<Rightarrow> Inl e
         | Inr st1 \<Rightarrow>
             (case update_elem (\<lambda>v. v + 1) st1 0 of
                Inl e \<Rightarrow> Inl e
              | Inr st2 \<Rightarrow> bench2_loop st2 count (i + 1)))
      else Inr st)"
  by pat_completeness auto
termination
  by (relation "measure (\<lambda>(st, count, i). nat (sint count - sint i))")
     (auto simp: word_sless_alt sint_succ)

definition bench2 :: "uint32_t list \<Rightarrow> c_int \<Rightarrow> error + workload_state" where
  "bench2 buf count = bench2_loop (buf, []) count 0"

text \<open>\<open>static void bench3(uint32_t *buf, int count)\<close>: one increment of element 0 and one of
  element 1 per round.\<close>

function bench3_loop :: "workload_state \<Rightarrow> c_int \<Rightarrow> c_int \<Rightarrow> error + workload_state" where
  "bench3_loop st count i =
     (if i <s count then
        (case update_elem (\<lambda>v. v + 1) st 0 of
           Inl e \<Rightarrow> Inl e
         | Inr st1 \<Rightarrow>
             (case update_elem (\<lambda>v. v + 1) st1 1 of
                Inl e \<Rightarrow> Inl e
              | Inr st2 \<Rightarrow> bench3_loop st2 count (i + 1)))
      else Inr st)"
  by pat_completeness auto
termination
  by (relation "measure (\<lambda>(st, count, i). nat (sint count - sint i))")
     (auto simp: word_sless_alt sint_succ)

definition bench3 :: "uint32_t list \<Rightarrow> c_int \<Rightarrow> error + workload_state" where
  "bench3 buf count = bench3_loop (buf, []) count 0"

declare bench2_loop.simps [simp del] bench3_loop.simps [simp del]

subsection \<open>The driver\<close>

text \<open>
  \<open>main\<close> is modelled by what it does to the outside: the trace of its system calls,
  its output and its workload runs. The page-touch loop of the prologue and the
  workloads are one event each (their effect on memory is modelled above; they have no
  failure path and no influence on the control flow of \<open>main\<close>). The operating system
  is a record of oracles: each gives the outcome of a call from the trace so far.
\<close>

datatype workload = Bench size_t c_int | Bench1 size_t c_int | Bench2 c_int | Bench3 c_int

datatype event =
    Sched_setaffinity
  | Sched_setscheduler
  | Fprintf string
  | Mmap size_t
  | Munmap size_t
  | Prefault size_t
  | Run workload
  | Printf string
  | Perror string
  | Exit nat

record os =
  getpagesize :: c_int
  sched_setaffinity :: "event list \<Rightarrow> c_int"
  sched_setscheduler :: "event list \<Rightarrow> c_int"
  mmap_failed :: "event list \<Rightarrow> bool"
  munmap :: "event list \<Rightarrow> c_int"
  getrusage :: "event list \<Rightarrow> rusage option"
  gettimeofday :: "event list \<Rightarrow> timeval option"

text \<open>The process state: the trace, the two global snapshots and the local \<open>start\<close>.\<close>

record proc =
  trace :: "event list"
  susage :: rusage
  eusage :: rusage
  start :: timeval

definition GIGABYTES :: "64 word \<Rightarrow> 64 word" where
  "GIGABYTES x = push_bit 30 x"

definition MEGABYTES :: "64 word \<Rightarrow> 64 word" where
  "MEGABYTES x = push_bit 20 x"

definition KILOBYTES :: "64 word \<Rightarrow> 64 word" where
  "KILOBYTES x = push_bit 10 x"

definition emit :: "proc \<Rightarrow> event \<Rightarrow> proc" where
  "emit s e = s\<lparr>trace := trace s @ [e]\<rparr>"

text \<open>\<open>die\<close>: \<open>perror\<close>, then \<open>exit(1)\<close>. A result \<open>Inl s\<close> below is a process that has
  exited this way, \<open>Inr s\<close> one that is still running.\<close>

definition die :: "proc \<Rightarrow> string \<Rightarrow> proc" where
  "die s str = s\<lparr>trace := trace s @ [Perror str, Exit 1]\<rparr>"

definition do_mmap :: "os \<Rightarrow> proc \<Rightarrow> size_t \<Rightarrow> proc + proc" where
  "do_mmap os s sz =
     (let s1 = emit s (Mmap sz)
      in if mmap_failed os (trace s) then Inl (die s1 ''mmap()'') else Inr s1)"

definition do_munmap :: "os \<Rightarrow> proc \<Rightarrow> size_t \<Rightarrow> proc + proc" where
  "do_munmap os s sz =
     (let s1 = emit s (Munmap sz)
      in if munmap os (trace s) = - 1 then Inl (die s1 ''munmap()'') else Inr s1)"

text \<open>benchmark_prologue and benchmark_epilogue as \<open>main\<close> calls them.\<close>

definition main_prologue :: "os \<Rightarrow> proc \<Rightarrow> size_t \<Rightarrow> proc + proc" where
  "main_prologue os s sz =
     (let s1 = emit s (Prefault sz)
      in case prologue_snapshots (getrusage os (trace s1)) (gettimeofday os (trace s1)) of
           Inl msg \<Rightarrow> Inl (die s1 msg)
         | Inr (ru, tv) \<Rightarrow> Inr (s1\<lparr>susage := ru, start := tv\<rparr>))"

definition main_epilogue :: "os \<Rightarrow> proc \<Rightarrow> size_t \<Rightarrow> proc + proc" where
  "main_epilogue os s step =
     (case benchmark_epilogue (susage s) (start s) step
             (gettimeofday os (trace s)) (getrusage os (trace s)) of
        Inl msg \<Rightarrow> Inl (die s msg)
      | Inr (eu, line) \<Rightarrow> Inr ((emit s (Printf line))\<lparr>eusage := eu\<rparr>))"

text \<open>\<open>for (step = 1; step <= 4096; step <<= 1)\<close> on the region mapped before the loop.\<close>

partial_function (option) example2_loop ::
  "os \<Rightarrow> size_t \<Rightarrow> proc \<Rightarrow> size_t \<Rightarrow> (proc + proc) option" where
  "example2_loop os sz s step =
     (if step \<le> 4096 then
        (case main_prologue os s sz of
           Inl s' \<Rightarrow> Some (Inl s')
         | Inr s1 \<Rightarrow>
             (case main_epilogue os (emit s1 (Run (Bench sz (ucast step)))) step of
                Inl s' \<Rightarrow> Some (Inl s')
              | Inr s2 \<Rightarrow> example2_loop os sz s2 (push_bit 1 step)))
      else Some (Inr s))"

text \<open>\<open>for (step = KILOBYTES(1); step <= GIGABYTES(1); step <<= 1)\<close>, mapping and unmapping
  inside the loop.\<close>

partial_function (option) example3_loop ::
  "os \<Rightarrow> proc \<Rightarrow> size_t \<Rightarrow> (proc + proc) option" where
  "example3_loop os s step =
     (if step \<le> GIGABYTES 1 then
        (let len = drop_bit (ffs sizeof_uint32_t - 1) step;
             sz = len * ucast sizeof_uint32_t
         in case do_mmap os s sz of
              Inl s' \<Rightarrow> Some (Inl s')
            | Inr s1 \<Rightarrow>
                (case main_prologue os s1 sz of
                   Inl s' \<Rightarrow> Some (Inl s')
                 | Inr s2 \<Rightarrow>
                     (case main_epilogue os
                             (emit s2 (Run (Bench1 len (ucast (MEGABYTES 64))))) step of
                        Inl s' \<Rightarrow> Some (Inl s')
                      | Inr s3 \<Rightarrow>
                          (case do_munmap os s3 sz of
                             Inl s' \<Rightarrow> Some (Inl s')
                           | Inr s4 \<Rightarrow> example3_loop os s4 (push_bit 1 step)))))
      else Some (Inr s))"

declare example2_loop.simps [code] example3_loop.simps [code]

text \<open>The last experiment: one page, two measurements.\<close>

definition example4 :: "os \<Rightarrow> proc \<Rightarrow> proc + proc" where
  "example4 os s =
     (let sz = scast (getpagesize os)
      in case do_mmap os s sz of
           Inl s' \<Rightarrow> Inl s'
         | Inr s1 \<Rightarrow>
             (case main_prologue os s1 sz of
                Inl s' \<Rightarrow> Inl s'
              | Inr s2 \<Rightarrow>
                  (case main_epilogue os (emit s2 (Run (Bench2 (256 * 1024 * 1024)))) 1 of
                     Inl s' \<Rightarrow> Inl s'
                   | Inr s3 \<Rightarrow>
                       (case main_prologue os s3 sz of
                          Inl s' \<Rightarrow> Inl s'
                        | Inr s4 \<Rightarrow>
                            (case main_epilogue os
                                    (emit s4 (Run (Bench3 (256 * 1024 * 1024)))) 2 of
                               Inl s' \<Rightarrow> Inl s'
                             | Inr s5 \<Rightarrow> do_munmap os s5 sz)))))"

definition init_proc :: proc where
  "init_proc =
     \<lparr>trace = [],
      susage = \<lparr>ru_majflt = 0, ru_minflt = 0, ru_nvcsw = 0, ru_nivcsw = 0\<rparr>,
      eusage = \<lparr>ru_majflt = 0, ru_minflt = 0, ru_nvcsw = 0, ru_nivcsw = 0\<rparr>,
      start = \<lparr>tv_sec = 0, tv_usec = 0\<rparr>\<rparr>"

definition header2 :: string where
  "header2 = [CHR 0x0A] @ ''Example 2: Impact of cache lines. 1'' @ [CHR 0x0A]"

definition header3 :: string where
  "header3 = [CHR 0x0A] @ ''Example 3: L1 and L2 cache sizes'' @ [CHR 0x0A]"

definition header4 :: string where
  "header4 = [CHR 0x0A] @ ''Example 4: Instruction-level parallelism'' @ [CHR 0x0A]"

text \<open>
  The return value of \<open>sched_setaffinity\<close> is not examined by the source, so the oracle
  \<open>sched_setaffinity\<close> is never consulted; that of \<open>sched_setscheduler\<close> is.
\<close>

definition main :: "os \<Rightarrow> (proc + proc) option" where
  "main os =
     (let s0 = emit init_proc Sched_setaffinity;
          s1 = emit s0 Sched_setscheduler
      in if sched_setscheduler os (trace s0) \<noteq> 0
         then Some (Inl (die s1 ''sched_setscheduler()''))
         else
           (let s2 = emit s1 (Fprintf header2);
                sz = MEGABYTES 64
            in case do_mmap os s2 sz of
                 Inl s' \<Rightarrow> Some (Inl s')
               | Inr s3 \<Rightarrow>
                   (case example2_loop os sz s3 1 of
                      None \<Rightarrow> None
                    | Some (Inl s') \<Rightarrow> Some (Inl s')
                    | Some (Inr s4) \<Rightarrow>
                        (case do_munmap os s4 sz of
                           Inl s' \<Rightarrow> Some (Inl s')
                         | Inr s5 \<Rightarrow>
                             (case example3_loop os (emit s5 (Fprintf header3)) (KILOBYTES 1) of
                                None \<Rightarrow> None
                              | Some (Inl s') \<Rightarrow> Some (Inl s')
                              | Some (Inr s6) \<Rightarrow>
                                  Some (example4 os (emit s6 (Fprintf header4))))))))"

definition exit_status :: "proc + proc \<Rightarrow> nat" where
  "exit_status r = (case r of Inl _ \<Rightarrow> 1 | Inr _ \<Rightarrow> 0)"

section \<open>Properties of bytes_to_prefix\<close>

lemma and_mask10_dvd:
  "(b :: size_t) AND (push_bit 10 1 - 1) = 0 \<longleftrightarrow> 1024 dvd unat b"
proof -
  have "(push_bit 10 1 - 1 :: size_t) = mask 10"
    by (simp add: mask_eq_exp_minus_1)
  then have "b AND (push_bit 10 1 - 1) = take_bit 10 b"
    by (simp add: take_bit_eq_mask)
  moreover have "take_bit 10 b = 0 \<longleftrightarrow> unat (take_bit 10 b) = 0"
    by (simp add: unat_eq_0)
  moreover have "unat (take_bit 10 b) = unat b mod 1024"
    by (simp add: take_bit_eq_mod unat_mod)
  ultimately show ?thesis
    by (simp add: dvd_eq_mod_eq_0)
qed

lemma unat_drop_bit_div: "unat (drop_bit n (b :: size_t)) = unat b div 2 ^ n"
  by (simp add: unat_drop_bit_eq) (simp add: drop_bit_eq_div)

lemma bytes_to_prefix_cases:
  "bytes_to_prefix b (Some p) =
    (if \<not> 1024 dvd unat b then (b, Some p)
     else if \<not> 1024 dvd unat b div 1024 then (drop_bit 10 b, Some ''k'')
     else if \<not> 1024 dvd unat b div 1024 div 1024 then (drop_bit 20 b, Some ''M'')
     else (drop_bit 30 b, Some ''G''))"
  by (simp add: bytes_to_prefix_def Let_def and_mask10_dvd unat_drop_bit_div
      drop_bit_drop_bit div_mult2_eq [symmetric] del: push_bit_of_1)

lemma dvd_1024_step:
  "(1024::nat) * 1024 ^ k dvd n \<longleftrightarrow> 1024 ^ k dvd n \<and> 1024 dvd n div 1024 ^ k"
proof
  assume h: "(1024::nat) * 1024 ^ k dvd n"
  then obtain m where m: "n = 1024 * 1024 ^ k * m" ..
  then have "n div 1024 ^ k = 1024 * m"
    by simp
  with m show "1024 ^ k dvd n \<and> 1024 dvd n div 1024 ^ k"
    by simp
next
  assume h: "1024 ^ k dvd n \<and> 1024 dvd n div 1024 ^ k"
  then obtain m where m: "n div 1024 ^ k = 1024 * m"
    by (auto elim: dvdE)
  from h have "n = 1024 ^ k * (n div 1024 ^ k)"
    by simp
  with m have "n = 1024 * 1024 ^ k * m"
    by simp
  then show "(1024::nat) * 1024 ^ k dvd n"
    by simp
qed

text \<open>
  Claim C4. With a non-null prefix pointer (the only caller passes \<open>" "\<close>), for an input
  divisible by \<open>1024^k\<close> and, unless \<open>k\<close> is the cap 3, not by \<open>1024^(k+1)\<close>,
  bytes_to_prefix returns the value divided by \<open>1024^k\<close> and the prefix for \<open>k\<close>: the
  caller's string untouched for \<open>k = 0\<close> (no prefix), then \<open>k\<close>, \<open>M\<close>, \<open>G\<close>. The three
  examples of the specification follow: 65536 gives 64 with \<open>k\<close>, 1073741824 gives 1
  with \<open>G\<close>, and 1000 stays 1000 with the caller's blank.
\<close>

theorem bytes_to_prefix_largest_unit:
  assumes "k \<le> 3"
    and "1024 ^ k dvd unat b"
    and "k < 3 \<longrightarrow> \<not> 1024 ^ (k + 1) dvd unat b"
  shows "fst (bytes_to_prefix b (Some p)) = drop_bit (10 * k) b
    \<and> unat (fst (bytes_to_prefix b (Some p))) = unat b div 1024 ^ k
    \<and> snd (bytes_to_prefix b (Some p)) = Some ([p, ''k'', ''M'', ''G''] ! k)
    \<and> bytes_to_prefix 65536 (Some '' '') = (64, Some ''k'')
    \<and> bytes_to_prefix 1073741824 (Some '' '') = (1, Some ''G'')
    \<and> bytes_to_prefix 1000 (Some '' '') = (1000, Some '' '')"
proof -
  have d2: "1024 dvd unat b \<Longrightarrow> 1024 dvd unat b div 1024 \<longleftrightarrow> 1024 ^ 2 dvd unat b"
    using dvd_1024_step [of 1 "unat b"] by (simp add: power2_eq_square)
  have d3: "1024 ^ 2 dvd unat b \<Longrightarrow> 1024 dvd unat b div 1024 div 1024 \<longleftrightarrow> 1024 ^ 3 dvd unat b"
    using dvd_1024_step [of 2 "unat b"] div_mult2_eq [of "unat b" 1024 1024]
    by (simp add: power3_eq_cube power2_eq_square)
  have p32: "(1024::nat) ^ 3 dvd unat b \<Longrightarrow> 1024 ^ 2 dvd unat b"
    by (rule dvd_trans [of _ "1024 ^ 3"]) simp_all
  have p21: "(1024::nat) ^ 2 dvd unat b \<Longrightarrow> 1024 dvd unat b"
    by (rule dvd_trans [of _ "1024 ^ 2"]) simp_all
  from assms(1) consider "k = 0" | "k = 1" | "k = 2" | "k = 3"
    by linarith
  then have main: "bytes_to_prefix b (Some p)
      = (drop_bit (10 * k) b, Some ([p, ''k'', ''M'', ''G''] ! k))"
  proof cases
    case 1
    with assms(3) show ?thesis
      by (simp add: bytes_to_prefix_cases)
  next
    case 2
    with assms(2,3) d2 show ?thesis
      by (simp add: bytes_to_prefix_cases)
  next
    case 3
    with assms(2,3) d2 d3 p21 show ?thesis
      by (simp add: bytes_to_prefix_cases)
  next
    case 4
    with assms(2) d2 d3 p21 p32 show ?thesis
      by (simp add: bytes_to_prefix_cases)
  qed
  have ex1: "bytes_to_prefix 65536 (Some '' '') = (64, Some ''k'')"
    by (simp add: bytes_to_prefix_def)
  have ex2: "bytes_to_prefix 1073741824 (Some '' '') = (1, Some ''G'')"
    by (simp add: bytes_to_prefix_def)
  have ex3: "bytes_to_prefix 1000 (Some '' '') = (1000, Some '' '')"
    by (simp add: bytes_to_prefix_def)
  have "unat (drop_bit (10 * k) b) = unat b div 1024 ^ k"
    by (simp add: unat_drop_bit_div power_mult)
  with main ex1 ex2 ex3 show ?thesis
    by simp
qed

theorem bytes_to_prefix_largest_unit_witness:
  "fst (bytes_to_prefix 65536 (Some '' '')) = drop_bit (10 * 1) 65536
    \<and> unat (fst (bytes_to_prefix 65536 (Some '' ''))) = 64
    \<and> snd (bytes_to_prefix 65536 (Some '' '')) = Some ''k''"
proof -
  have h1: "(1::nat) \<le> 3"
    by simp
  have h2: "(1024::nat) ^ 1 dvd unat (65536 :: size_t)"
    by simp
  have h3: "(1::nat) < 3 \<longrightarrow> \<not> (1024::nat) ^ (1 + 1) dvd unat (65536 :: size_t)"
    by simp
  show ?thesis
    using bytes_to_prefix_largest_unit [OF h1 h2 h3, of "'' ''"] by simp
qed

section \<open>Properties of the workloads\<close>

subsection \<open>Index arithmetic of the aliasing workload\<close>

text \<open>The element offset that round \<open>i\<close> of bench1 touches, as a natural number.\<close>

definition bench1_index :: "size_t \<Rightarrow> c_int \<Rightarrow> nat" where
  "bench1_index lengthMod i = unat ((scast (i * 16) :: size_t) AND lengthMod)"

lemma bench1_index_le: "bench1_index lm i \<le> unat lm"
  unfolding bench1_index_def by (rule word_and_le1 [THEN word_le_nat_alt [THEN iffD1]])

lemma update_elem_in:
  "j < length buf \<Longrightarrow> update_elem f (buf, log) (int j) = Inr (buf[j := f (buf ! j)], log @ [j])"
  by (simp add: update_elem_def)

lemma update_elem_0:
  "0 < length buf \<Longrightarrow> update_elem f (buf, log) 0 = Inr (buf[0 := f (buf ! 0)], log @ [0])"
  using update_elem_in [of 0 buf f log] by simp

lemma update_elem_1:
  "1 < length buf \<Longrightarrow> update_elem f (buf, log) 1 = Inr (buf[1 := f (buf ! 1)], log @ [1])"
  using update_elem_in [of 1 buf f log] by simp

lemma bench1_loop_unroll:
  assumes "unat lm < length buf"
  shows "n = nat (sint limit - sint i) \<Longrightarrow> bench1_loop (buf, log) lm limit i =
    Inr (fold (\<lambda>j b. b[j := b ! j + 1]) (map (\<lambda>k. bench1_index lm (i + of_nat k)) [0..<n]) buf,
         log @ map (\<lambda>k. bench1_index lm (i + of_nat k)) [0..<n])"
  using assms
proof (induction n arbitrary: i buf log)
  case 0
  then have "\<not> i <s limit" by (simp add: word_sless_alt)
  then show ?case by (simp add: bench1_loop.simps)
next
  case (Suc n)
  then have lt: "i <s limit" by (simp add: word_sless_alt)
  let ?j = "bench1_index lm i"
  have jlt: "?j < length buf" using bench1_index_le [of lm i] Suc.prems by simp
  have idx: "uint ((scast (i * 16) :: size_t) AND lm) = int ?j"
    by (simp add: bench1_index_def)
  have n: "n = nat (sint limit - sint (i + 1))" using Suc.prems lt by (simp add: sint_succ)
  have step: "bench1_loop (buf, log) lm limit i = bench1_loop (buf[?j := buf ! ?j + 1], log @ [?j]) lm limit (i + 1)"
    using lt jlt by (subst bench1_loop.simps) (simp add: idx update_elem_in)
  have shift: "map (\<lambda>k. bench1_index lm (i + of_nat k)) [0..<Suc n]
      = ?j # map (\<lambda>k. bench1_index lm (i + 1 + of_nat k)) [0..<n]"
    by (simp add: upt_conv_Cons map_Suc_upt [symmetric] add.assoc del: upt_Suc)
  show ?case
    unfolding step shift using Suc.IH [OF n, of "buf[?j := buf ! ?j + 1]" "log @ [?j]"] Suc.prems(2)
    by simp
qed

lemma uint_scast: "uint (scast (w::c_int) :: size_t) = take_bit 64 (sint w)"
  by transfer simp

lemma mask_pow2: "(2 ^ e - 1 :: size_t) = mask e"
  by (simp add: mask_eq_exp_minus_1)

lemma bench1_index_int:
  assumes "e < 64"
  shows "int (bench1_index (2 ^ e - 1) i) = take_bit e (sint (i * 16))"
proof -
  have "uint ((scast (i * 16) :: size_t) AND mask e) = take_bit e (uint (scast (i * 16) :: size_t))"
    using assms by (simp add: and_mask_bintr uint_word_of_int_eq take_bit_take_bit min_def)
  also have "\<dots> = take_bit e (sint (i * 16))"
    using assms by (simp add: uint_scast take_bit_take_bit min_def)
  finally show ?thesis
    by (simp add: bench1_index_def mask_pow2)
qed

lemma times16_of_int: "(of_nat k * 16 :: c_int) = word_of_int (int k * 16)"
  by simp

lemma sint_times16_small:
  assumes "k < 2 ^ 27"
  shows "sint (of_nat k * 16 :: c_int) = int k * 16"
proof -
  have "sint (of_nat k * 16 :: c_int) = signed_take_bit 31 (int k * 16)"
    unfolding times16_of_int by (simp add: sint_sbintrunc' del: of_int_mult of_int_of_nat_eq)
  also have "\<dots> = int k * 16"
    using assms by (intro signed_take_bit_int_eq_self) auto
  finally show ?thesis .
qed

lemma take_bit_sint_times16:
  assumes "e \<le> 32"
  shows "take_bit e (sint (of_nat k * 16 :: c_int)) = take_bit e (int k * 16)"
proof -
  have "take_bit e (sint (of_nat k * 16 :: c_int)) = take_bit e (uint (of_nat k * 16 :: c_int))"
    using assms by (simp add: sint_uint take_bit_signed_take_bit)
  also have "\<dots> = take_bit e (take_bit 32 (int k * 16))"
    unfolding times16_of_int by (simp add: uint_word_of_int_eq del: of_int_mult of_int_of_nat_eq)
  also have "\<dots> = take_bit e (int k * 16)"
    using assms by (simp add: take_bit_take_bit min_def)
  finally show ?thesis .
qed

lemma bench1_index_mod:
  assumes "e < 64" and "e \<le> 32 \<or> k < 2 ^ 27"
  shows "bench1_index (2 ^ e - 1) (of_nat k) = (k * 16) mod 2 ^ e"
proof -
  have "int (bench1_index (2 ^ e - 1) (of_nat k)) = take_bit e (int k * 16)"
    using assms bench1_index_int [OF assms(1), of "of_nat k"]
    by (auto simp: take_bit_sint_times16 sint_times16_small)
  also have "\<dots> = int ((k * 16) mod 2 ^ e)"
    by (simp add: take_bit_eq_mod zmod_int)
  finally show ?thesis
    by (simp only: of_nat_eq_iff)
qed

lemma fold_incr_length:
  "length (fold (\<lambda>j b. b[j := b ! j + (1::uint32_t)]) js b) = length b"
  by (induction js arbitrary: b) auto

lemma fold_incr_nth:
  "j0 < length b \<Longrightarrow>
   fold (\<lambda>j b. b[j := b ! j + (1::uint32_t)]) js b ! j0 = b ! j0 + of_nat (count_list js j0)"
proof (induction js arbitrary: b)
  case Nil
  then show ?case by simp
next
  case (Cons j js)
  then show ?case
    by (cases "j = j0") (auto simp: nth_list_update)
qed

lemma count_list_map:
  "count_list (map f xs) j = length (filter (\<lambda>i. f i = j) xs)"
  by (induction xs) auto

lemma count_list_map_upt:
  "count_list (map f [0..<N]) j = card {i. i < N \<and> f i = j}"
proof -
  have "{i. i < length [0..<N] \<and> f ([0..<N] ! i) = j} = {i. i < N \<and> f i = j}"
    by auto
  then show ?thesis
    by (simp only: count_list_map length_filter_conv_card)
qed

lemma unat_pow2_minus1: "e < 64 \<Longrightarrow> unat (2 ^ e - 1 :: size_t) = 2 ^ e - 1"
proof -
  assume e: "e < 64"
  then have nz: "(2 ^ e :: size_t) \<noteq> 0" by simp
  then have "(0 :: size_t) < 2 ^ e" by (simp add: word_gt_0)
  then have "unat (2 ^ e :: size_t) = 2 ^ e" by (simp add: unat_eq_nat_uint uint_2p)
  with unat_minus_one [OF nz] show ?thesis by simp
qed

lemma sint_nat_bound: "nat (sint (w :: c_int)) < 2 ^ 31"
  using sint_lt [of w] by simp

lemma map_upt_eq_nth: "map f [0..<N] = map g [0..<N] \<Longrightarrow> k < N \<Longrightarrow> f k = g k"
  by (metis (no_types, lifting) add_0 diff_zero length_upt nth_map nth_upt)

text \<open>
  Claim C5, as amended. For a buffer length \<open>L = 2^e\<close> and the iteration count
  \<open>N = limit\<close> (no round at all when \<open>limit\<close> is negative), if \<open>L \<le> 2^32\<close> or
  \<open>N \<le> 2^27\<close>, then on a zero-initialised buffer of at least \<open>L\<close> elements bench1 runs
  to the end without leaving the buffer, the offsets it touches are, in order,
  \<open>(i * 16) mod L\<close> for \<open>i\<close> in \<open>[0, N)\<close>, and the final value at each offset \<open>j\<close> is
  the number of \<open>i\<close> in \<open>[0, N)\<close> with \<open>(i * 16) mod L = j\<close> (so 0 at every offset that
  is never touched).
\<close>

theorem bench1_touches_modular_offsets:
  assumes "e < 64"
    and "e \<le> 32 \<or> nat (sint limit) \<le> 2 ^ 27"
    and "2 ^ e \<le> n"
  shows "\<exists>buf'. bench1 (replicate n 0) (2 ^ e) limit
        = Inr (buf', map (\<lambda>i. (i * 16) mod 2 ^ e) [0..<nat (sint limit)])
      \<and> length buf' = n
      \<and> (\<forall>j<n. unat (buf' ! j) = card {i. i < nat (sint limit) \<and> (i * 16) mod 2 ^ e = j})"
proof -
  let ?N = "nat (sint limit)"
  let ?lm = "2 ^ e - 1 :: size_t"
  let ?js = "map (\<lambda>k. bench1_index ?lm (0 + of_nat k)) [0..<?N]"
  let ?buf' = "fold (\<lambda>j b. b[j := b ! j + 1]) ?js (replicate n (0::uint32_t))"
  have inb: "unat ?lm < length (replicate n (0::uint32_t))"
  proof -
    have "(0::nat) < 2 ^ e" by simp
    with assms(3) have "2 ^ e - 1 < n" by linarith
    with assms(1) show ?thesis by (simp add: unat_pow2_minus1)
  qed
  have run: "bench1 (replicate n 0) (2 ^ e) limit = Inr (?buf', [] @ ?js)"
    unfolding bench1_def Let_def
    by (rule bench1_loop_unroll [OF inb]) simp
  have js: "?js = map (\<lambda>i. (i * 16) mod 2 ^ e) [0..<?N]"
  proof (rule map_cong [OF refl])
    fix k assume "k \<in> set [0..<?N]"
    then have "k < ?N" by simp
    with assms(2) have "e \<le> 32 \<or> k < 2 ^ 27" by auto
    with assms(1) show "bench1_index ?lm (0 + of_nat k) = (k * 16) mod 2 ^ e"
      by (simp add: bench1_index_mod)
  qed
  have cnt: "unat (?buf' ! j) = card {i. i < ?N \<and> (i * 16) mod 2 ^ e = j}" if "j < n" for j
  proof -
    let ?c = "card {i. i < ?N \<and> (i * 16) mod 2 ^ e = j}"
    have "?c \<le> card {i. i < ?N}"
      by (rule card_mono) auto
    then have "?c < 2 ^ 32"
      using sint_nat_bound [of limit] by simp
    moreover have "?buf' ! j = replicate n 0 ! j + of_nat (count_list ?js j)"
      by (rule fold_incr_nth) (simp add: that)
    moreover have "count_list ?js j = ?c"
      by (simp only: js count_list_map_upt)
    moreover have "replicate n (0::uint32_t) ! j = 0"
      using that by simp
    ultimately show ?thesis
      by (simp only: add_0 unat_of_nat) simp
  qed
  show ?thesis
    using run js cnt by (simp add: fold_incr_length)
qed

theorem bench1_touches_modular_offsets_witness:
  "(3::nat) < 64 \<and> (2::nat) ^ 3 \<le> 8
    \<and> (\<exists>buf'. bench1 (replicate 8 0) (2 ^ 3) 5 = Inr (buf', [0, 0, 0, 0, 0])
          \<and> unat (buf' ! 0) = 5)"
proof -
  have h1: "(3::nat) < 64" by simp
  have h2: "(3::nat) \<le> 32 \<or> nat (sint (5 :: c_int)) \<le> 2 ^ 27" by simp
  have h3: "(2::nat) ^ 3 \<le> 8" by simp
  have c: "card {i. i < (5::nat) \<and> i * 16 mod 8 = 0} = 5"
  proof -
    have "{i. i < (5::nat) \<and> i * 16 mod 8 = 0} = {0, 1, 2, 3, 4}" by auto
    then show ?thesis by simp
  qed
  have u: "[0..<5] = [0, 1, 2, 3, 4::nat]" by (simp add: upt_conv_Cons)
  show ?thesis
    using bench1_touches_modular_offsets [OF h1 h2 h3] c by (auto simp: u)
qed

text \<open>
  Claim C5 as stated, for every power of two \<open>L\<close> and every \<open>N\<close>, fails: the product
  \<open>i * 16\<close> is computed in \<open>int\<close>. With \<open>L = 2^33\<close> and \<open>N = 2^27 + 1\<close> the last round
  has \<open>i = 2^27\<close>, the product \<open>2^31\<close> wraps to \<open>-2^31\<close>, its sign extension masked
  with \<open>L - 1\<close> is \<open>2^32 + 2^31\<close>, not \<open>(2^27 * 16) mod 2^33 = 2^31\<close>.
\<close>

theorem bench1_offsets_counterexample:
  "\<not> (\<exists>buf'. bench1 (replicate (2 ^ 33) 0) (2 ^ 33) (2 ^ 27 + 1)
        = Inr (buf', map (\<lambda>i. (i * 16) mod 2 ^ 33) [0..<nat (sint (2 ^ 27 + 1 :: c_int))]))"
proof
  let ?lm = "2 ^ 33 - 1 :: size_t"
  let ?limit = "2 ^ 27 + 1 :: c_int"
  let ?f = "\<lambda>k. bench1_index ?lm (0 + of_nat k)"
  let ?g = "\<lambda>i::nat. (i * 16) mod 2 ^ 33"
  assume "\<exists>buf'. bench1 (replicate (2 ^ 33) 0) (2 ^ 33) ?limit
        = Inr (buf', map ?g [0..<nat (sint ?limit)])"
  then obtain buf' where eq: "bench1 (replicate (2 ^ 33) 0) (2 ^ 33) ?limit
        = Inr (buf', map ?g [0..<nat (sint ?limit)])" ..
  have inb: "unat ?lm < length (replicate (2 ^ 33) (0::uint32_t))"
    by simp
  have "bench1 (replicate (2 ^ 33) 0) (2 ^ 33) ?limit
      = Inr (fold (\<lambda>j b. b[j := b ! j + 1]) (map ?f [0..<nat (sint ?limit)]) (replicate (2 ^ 33) 0),
             [] @ map ?f [0..<nat (sint ?limit)])"
    unfolding bench1_def Let_def
    by (rule bench1_loop_unroll [OF inb]) simp
  with eq have "(Inr (buf', map ?g [0..<nat (sint ?limit)]) :: error + workload_state)
      = Inr (fold (\<lambda>j b. b[j := b ! j + 1]) (map ?f [0..<nat (sint ?limit)]) (replicate (2 ^ 33) 0),
             [] @ map ?f [0..<nat (sint ?limit)])"
    by (rule trans [OF sym])
  then have "map ?f [0..<nat (sint ?limit)] = map ?g [0..<nat (sint ?limit)]"
    by (simp only: sum.inject prod.inject append_Nil)
  moreover have "(2 ^ 27 :: nat) < nat (sint ?limit)"
    by simp
  ultimately have "?f (2 ^ 27) = ?g (2 ^ 27)"
    by (rule map_upt_eq_nth)
  then show False
    by (simp add: bench1_index_def)
qed

subsection \<open>The increment workloads\<close>

lemma bench2_loop_unroll:
  "0 < length buf \<Longrightarrow> n = nat (sint count - sint i) \<Longrightarrow>
   bench2_loop (buf, log) count i
     = Inr (buf[0 := buf ! 0 + of_nat (2 * n)], log @ replicate (2 * n) 0)"
proof (induction n arbitrary: i buf log)
  case 0
  then have "\<not> i <s count" by (simp add: word_sless_alt)
  then show ?case by (simp add: bench2_loop.simps)
next
  case (Suc n)
  then have lt: "i <s count" by (simp add: word_sless_alt)
  have n: "n = nat (sint count - sint (i + 1))" using Suc.prems lt by (simp add: sint_succ)
  let ?b = "buf[0 := buf ! 0 + 1 + 1]"
  have step: "bench2_loop (buf, log) count i = bench2_loop (?b, log @ [0, 0]) count (i + 1)"
    using lt Suc.prems(1) by (subst bench2_loop.simps) (simp add: update_elem_0)
  have "bench2_loop (?b, log @ [0, 0]) count (i + 1)
      = Inr (?b[0 := ?b ! 0 + of_nat (2 * n)], (log @ [0, 0]) @ replicate (2 * n) 0)"
    using Suc.prems(1) by (intro Suc.IH [OF _ n]) simp
  with step Suc.prems(1) show ?case
    by (simp add: algebra_simps replicate_append_same)
qed

lemma bench3_loop_unroll:
  "1 < length buf \<Longrightarrow> n = nat (sint count - sint i) \<Longrightarrow>
   bench3_loop (buf, log) count i
     = Inr (buf[0 := buf ! 0 + of_nat n, 1 := buf ! 1 + of_nat n],
            log @ concat (replicate n [0, 1]))"
proof (induction n arbitrary: i buf log)
  case 0
  then have "\<not> i <s count" by (simp add: word_sless_alt)
  then show ?case by (simp add: bench3_loop.simps)
next
  case (Suc n)
  then have lt: "i <s count" by (simp add: word_sless_alt)
  have n: "n = nat (sint count - sint (i + 1))" using Suc.prems lt by (simp add: sint_succ)
  let ?b = "buf[0 := buf ! 0 + 1, 1 := buf ! 1 + 1]"
  have u0: "update_elem (\<lambda>v. v + 1) (buf, log) 0 = Inr (buf[0 := buf ! 0 + 1], log @ [0])"
    using Suc.prems(1) by (intro update_elem_0) auto
  have u1: "update_elem (\<lambda>v. v + 1) (buf[0 := buf ! 0 + 1], log @ [0]) 1
      = Inr (?b, (log @ [0]) @ [1])"
    using Suc.prems(1) update_elem_1 [of "buf[0 := buf ! 0 + 1]" "\<lambda>v. v + 1" "log @ [0]"]
    by simp
  have step: "bench3_loop (buf, log) count i = bench3_loop (?b, log @ [0, 1]) count (i + 1)"
    using lt by (subst bench3_loop.simps) (simp add: u0 u1)
  have "bench3_loop (?b, log @ [0, 1]) count (i + 1)
      = Inr (?b[0 := ?b ! 0 + of_nat n, 1 := ?b ! 1 + of_nat n],
             (log @ [0, 1]) @ concat (replicate n [0, 1]))"
    using Suc.prems(1) by (intro Suc.IH [OF _ n]) simp
  moreover have "?b[0 := ?b ! 0 + of_nat n, 1 := ?b ! 1 + of_nat n]
      = buf[0 := buf ! 0 + of_nat (Suc n), 1 := buf ! 1 + of_nat (Suc n)]"
  proof (rule nth_equalityI)
    fix j assume "j < length (?b[0 := ?b ! 0 + of_nat n, 1 := ?b ! 1 + of_nat n])"
    then have j: "j < length buf" by simp
    from Suc.prems(1) have l0: "0 < length buf" by auto
    consider "j = 0" | "j = 1" | "j \<noteq> 0 \<and> j \<noteq> 1" by blast
    then show "?b[0 := ?b ! 0 + of_nat n, 1 := ?b ! 1 + of_nat n] ! j
        = buf[0 := buf ! 0 + of_nat (Suc n), 1 := buf ! 1 + of_nat (Suc n)] ! j"
      using j l0 Suc.prems(1) by cases (simp_all add: nth_list_update add.assoc)
  qed simp
  ultimately show ?case
    using step by simp
qed

lemma unat_of_nat_small: "k < 2 ^ 32 \<Longrightarrow> unat (of_nat k :: uint32_t) = k"
  by (simp add: unat_of_nat)

text \<open>
  Claim C6. With \<open>N\<close> the number of rounds (\<open>count\<close>, or 0 when \<open>count\<close> is negative):
  on a zero-initialised buffer with an element 0, bench2 (workload 3) ends with element
  0 equal to \<open>2N\<close> and every other element 0; on a zero-initialised buffer with elements
  0 and 1, bench3 (workload 4) ends with element 0 equal to \<open>N\<close>, element 1 equal to \<open>N\<close>
  and every other element 0.
\<close>

theorem increment_workloads_final_values:
  "(1 \<le> n \<longrightarrow>
      (\<exists>buf' log. bench2 (replicate n 0) count = Inr (buf', log)
         \<and> length buf' = n
         \<and> unat (buf' ! 0) = 2 * nat (sint count)
         \<and> (\<forall>j. 0 < j \<and> j < n \<longrightarrow> buf' ! j = 0)))
   \<and> (2 \<le> n \<longrightarrow>
      (\<exists>buf' log. bench3 (replicate n 0) count = Inr (buf', log)
         \<and> length buf' = n
         \<and> unat (buf' ! 0) = nat (sint count)
         \<and> unat (buf' ! 1) = nat (sint count)
         \<and> (\<forall>j. 1 < j \<and> j < n \<longrightarrow> buf' ! j = 0)))"
proof (intro conjI impI)
  let ?N = "nat (sint count)"
  let ?Z = "replicate n (0 :: uint32_t)"
  have N: "?N < 2 ^ 31" by (rule sint_nat_bound)
  {
    assume n: "1 \<le> n"
    have "bench2 ?Z count = Inr (?Z[0 := ?Z ! 0 + of_nat (2 * ?N)], [] @ replicate (2 * ?N) 0)"
      unfolding bench2_def using n by (intro bench2_loop_unroll) simp_all
    moreover have "unat (of_nat (2 * ?N) :: uint32_t) = 2 * ?N"
      using N by (intro unat_of_nat_small) simp
    ultimately show "\<exists>buf' log. bench2 ?Z count = Inr (buf', log)
         \<and> length buf' = n
         \<and> unat (buf' ! 0) = 2 * ?N
         \<and> (\<forall>j. 0 < j \<and> j < n \<longrightarrow> buf' ! j = 0)"
      using n by simp
  }
  {
    assume n: "2 \<le> n"
    have "bench3 ?Z count = Inr (?Z[0 := ?Z ! 0 + of_nat ?N, 1 := ?Z ! 1 + of_nat ?N],
                                 [] @ concat (replicate ?N [0, 1]))"
      unfolding bench3_def using n by (intro bench3_loop_unroll) simp_all
    moreover have "unat (of_nat ?N :: uint32_t) = ?N"
      using N by (intro unat_of_nat_small) simp
    ultimately show "\<exists>buf' log. bench3 ?Z count = Inr (buf', log)
         \<and> length buf' = n
         \<and> unat (buf' ! 0) = ?N
         \<and> unat (buf' ! 1) = ?N
         \<and> (\<forall>j. 1 < j \<and> j < n \<longrightarrow> buf' ! j = 0)"
      using n by (simp add: nth_list_update)
  }
qed

theorem increment_workloads_final_values_witness:
  "(\<exists>buf' log. bench2 (replicate 4 0) 7 = Inr (buf', log) \<and> unat (buf' ! 0) = 14)
   \<and> (\<exists>buf' log. bench3 (replicate 4 0) 7 = Inr (buf', log)
         \<and> unat (buf' ! 0) = 7 \<and> unat (buf' ! 1) = 7)"
  using increment_workloads_final_values [of 4 7] by auto

subsection \<open>The strided scan\<close>

lemma unat_scast_nonneg:
  "0 \<le> sint w \<Longrightarrow> unat (scast (w::c_int) :: size_t) = nat (sint w)"
proof -
  assume nn: "0 \<le> sint w"
  have "sint w < 2 ^ 31" using sint_lt [of w] by simp
  then have "sint w < 2 ^ 64" by (rule less_trans) simp
  with nn have "take_bit 64 (sint w) = sint w"
    by (simp add: take_bit_int_eq_self)
  then show ?thesis
    by (simp add: unat_eq_nat_uint uint_scast)
qed

lemma unat_scast_neg:
  "sint w < 0 \<Longrightarrow> 2 ^ 63 \<le> unat (scast (w::c_int) :: size_t)"
proof -
  assume neg: "sint w < 0"
  have ge: "- (2 ^ 31) \<le> sint w" using sint_ge [of w] by simp
  have "take_bit 64 (sint w) = sint w mod 2 ^ 64" by (simp add: take_bit_eq_mod)
  also have "\<dots> = (sint w + 2 ^ 64) mod 2 ^ 64" by simp
  also have "\<dots> = sint w + 2 ^ 64"
    using neg ge by (intro mod_pos_pos_trivial) auto
  finally have "uint (scast w :: size_t) = sint w + 2 ^ 64"
    by (simp add: uint_scast)
  with ge show ?thesis
    by (simp add: unat_eq_nat_uint)
qed

lemma sint_add_no_wrap:
  "0 \<le> sint (i::c_int) \<Longrightarrow> 0 < sint step \<Longrightarrow> sint i + sint step < 2 ^ 31
   \<Longrightarrow> sint (i + step) = sint i + sint step"
  by (simp add: sint_word_add signed_take_bit_int_eq_self)

lemma sint_add_wrap:
  "2 ^ 31 \<le> sint (i::c_int) + sint step \<Longrightarrow> sint (i + step) < 0"
proof -
  define x where "x = sint i + sint step"
  define y where "y = signed_take_bit 31 x"
  assume "2 ^ 31 \<le> sint i + sint step"
  then have h: "2 ^ 31 \<le> x" by (simp only: x_def)
  have "sint i < 2 ^ 31" and "sint step < 2 ^ 31"
    using sint_lt [of i] sint_lt [of step] by simp_all
  then have "x < 2 ^ 31 + 2 ^ 31" unfolding x_def by (rule add_strict_mono)
  then have x: "x < 4294967296" by simp
  have "y \<le> x - 2 ^ Suc 31"
    unfolding y_def using h by (rule signed_take_bit_int_less_eq)
  then have "y \<le> x - 4294967296" by simp
  with x have "y < 0" by linarith
  moreover have "sint (i + step) = y"
    unfolding x_def y_def by (simp add: sint_word_add)
  ultimately show ?thesis by (simp only:)
qed

text \<open>
  The indices \<open>a, a + s, a + 2s, \<dots>\<close> below \<open>m\<close>: how many there are, and the list of
  them.
\<close>

definition stride_count :: "nat \<Rightarrow> nat \<Rightarrow> nat \<Rightarrow> nat" where
  "stride_count m s a = (m - a + s - 1) div s"

lemma stride_count_done: "0 < s \<Longrightarrow> m \<le> a \<Longrightarrow> stride_count m s a = 0"
  by (simp add: stride_count_def)

lemma stride_count_step:
  assumes "0 < s" and "a < m"
  shows "stride_count m s a = Suc (stride_count m s (a + s))"
proof (cases "a + s \<le> m")
  case True
  define d where "d = m - (a + s) + s - 1"
  have "m - a + s - 1 = d + s"
    unfolding d_def using True assms by linarith
  then have "(m - a + s - 1) div s = (d + s) div s"
    by (rule arg_cong)
  also have "\<dots> = Suc (d div s)"
    using assms(1) div_add_self2 [of s d] by simp
  finally show ?thesis
    by (simp only: stride_count_def d_def)
next
  case False
  define x where "x = m - a + s - 1"
  have "m - (a + s) + s - 1 < s"
    using False assms by linarith
  then have z: "stride_count m s (a + s) = 0"
    by (simp only: stride_count_def div_less)
  have "s \<le> x" and "x < s + s"
    unfolding x_def using assms False by linarith+
  then have "s * 1 \<le> x" and "x < s * Suc 1"
    by simp_all
  then have "x div s = 1"
    by (rule div_nat_eqI)
  with z show ?thesis
    by (simp only: stride_count_def x_def One_nat_def)
qed

definition stride_indices :: "nat \<Rightarrow> nat \<Rightarrow> nat \<Rightarrow> nat list" where
  "stride_indices m s a = map (\<lambda>k. a + k * s) [0..<stride_count m s a]"

lemma stride_indices_done: "0 < s \<Longrightarrow> m \<le> a \<Longrightarrow> stride_indices m s a = []"
  by (simp add: stride_indices_def stride_count_done)

lemma stride_indices_step:
  assumes "0 < s" and "a < m"
  shows "stride_indices m s a = a # stride_indices m s (a + s)"
  unfolding stride_indices_def stride_count_step [OF assms]
  by (simp add: upt_conv_Cons map_Suc_upt [symmetric] add.assoc del: upt_Suc)

text \<open>
  The loop of bench from a non-negative \<open>i\<close>: it visits \<open>i, i + step, \<dots>\<close> below the
  element count and below \<open>2^31\<close>, where the \<open>int\<close> index wraps to a negative value
  that the unsigned comparison takes for a huge one.
\<close>

lemma bench_loop_unroll:
  assumes s: "0 < sint step" and len: "unat len < 2 ^ 63" and inb: "unat len \<le> length buf"
  shows "0 \<le> sint i \<Longrightarrow>
    bench_loop (buf, log) len step i =
      Some (Inr (fold (\<lambda>j b. b[j := b ! j * 3])
                   (stride_indices (min (unat len) (2 ^ 31)) (nat (sint step)) (nat (sint i))) buf,
                 log @ stride_indices (min (unat len) (2 ^ 31)) (nat (sint step)) (nat (sint i))))"
  using inb
proof (induction "min (unat len) (2 ^ 31) - nat (sint i)" arbitrary: i buf log rule: less_induct)
  case less
  let ?m = "min (unat len) (2 ^ 31)"
  let ?s = "nat (sint step)"
  let ?a = "nat (sint i)"
  have spos: "0 < ?s" using s by simp
  have a31: "?a < 2 ^ 31" using sint_lt [of i] less.prems(1) by simp
  have guard: "(scast i :: size_t) < len \<longleftrightarrow> ?a < unat len"
    using less.prems(1) by (simp add: word_less_nat_alt unat_scast_nonneg)
  show ?case
  proof (cases "?a < unat len")
    case False
    then have "stride_indices ?m ?s ?a = []"
      using spos by (intro stride_indices_done) simp_all
    with False guard show ?thesis
      by (subst bench_loop.simps) simp
  next
    case True
    with a31 have am: "?a < ?m" by simp
    let ?b = "buf[?a := buf ! ?a * 3]"
    have upd: "update_elem (\<lambda>v. v * 3) (buf, log) (sint i) = Inr (?b, log @ [?a])"
      using update_elem_in [of ?a buf "\<lambda>v. v * 3" log] True less.prems by simp
    have step1: "bench_loop (buf, log) len step i = bench_loop (?b, log @ [?a]) len step (i + step)"
      using True guard by (subst bench_loop.simps) (simp add: upd)
    have ind: "stride_indices ?m ?s ?a = ?a # stride_indices ?m ?s (?a + ?s)"
      using spos am by (rule stride_indices_step)
    show ?thesis
    proof (cases "sint i + sint step < 2 ^ 31")
      case nowrap: True
      have sum: "sint (i + step) = sint i + sint step"
        using less.prems(1) s nowrap by (rule sint_add_no_wrap)
      then have a': "nat (sint (i + step)) = ?a + ?s"
        using less.prems(1) s by (simp add: nat_add_distrib)
      have "?m - (?a + ?s) < ?m - ?a"
        using am spos by linarith
      then have "?m - nat (sint (i + step)) < ?m - ?a"
        by (simp only: a')
      moreover have "0 \<le> sint (i + step)" using sum less.prems(1) s by simp
      moreover have "unat len \<le> length ?b" using less.prems(2) by simp
      ultimately have "bench_loop (?b, log @ [?a]) len step (i + step) =
        Some (Inr (fold (\<lambda>j b. b[j := b ! j * 3]) (stride_indices ?m ?s (nat (sint (i + step)))) ?b,
                   (log @ [?a]) @ stride_indices ?m ?s (nat (sint (i + step)))))"
        by (rule less.hyps)
      then show ?thesis
        unfolding step1 ind a' by simp
    next
      case wrap: False
      then have "sint (i + step) < 0"
        by (intro sint_add_wrap) simp
      then have "\<not> (scast (i + step) :: size_t) < len"
        using unat_scast_neg [of "i + step"] len by (simp add: word_less_nat_alt)
      then have stop: "bench_loop (?b, log @ [?a]) len step (i + step) = Some (Inr (?b, log @ [?a]))"
        by (subst bench_loop.simps) simp
      have "?m \<le> ?a + ?s"
        using wrap less.prems(1) s by (simp add: min_def) linarith
      then have "stride_indices ?m ?s (?a + ?s) = []"
        using spos by (intro stride_indices_done)
      then show ?thesis
        unfolding step1 ind stop by simp
    qed
  qed
qed

lemma fold_mul3_length:
  "length (fold (\<lambda>j b. b[j := b ! j * (3::uint32_t)]) js b) = length b"
  by (induction js arbitrary: b) auto

lemma fold_mul3_nth:
  "distinct js \<Longrightarrow> j0 < length b \<Longrightarrow>
   fold (\<lambda>j b. b[j := b ! j * (3::uint32_t)]) js b ! j0
     = (if j0 \<in> set js then b ! j0 * 3 else b ! j0)"
proof (induction js arbitrary: b)
  case Nil
  then show ?case by simp
next
  case (Cons j js)
  then show ?case
    by (cases "j = j0") (auto simp: nth_list_update)
qed

lemma stride_count_less_iff:
  assumes "0 < s"
  shows "k < stride_count m s 0 \<longleftrightarrow> k * s < m"
proof -
  have "k < (m + s - 1) div s \<longleftrightarrow> Suc k \<le> (m + s - 1) div s"
    by (simp only: Suc_le_eq)
  also have "\<dots> \<longleftrightarrow> Suc k * s \<le> m + s - 1"
    using assms by (rule less_eq_div_iff_mult_less_eq)
  also have "\<dots> \<longleftrightarrow> k * s + s \<le> m + s - 1"
    by (simp only: mult_Suc add.commute)
  also have "\<dots> \<longleftrightarrow> k * s < m"
    using assms by linarith
  finally show ?thesis
    by (simp only: stride_count_def diff_zero)
qed

lemma set_stride_indices:
  assumes "0 < s"
  shows "set (stride_indices m s 0) = {j. j < m \<and> s dvd j}"
proof -
  have "set (stride_indices m s 0) = {k * s |k. k < stride_count m s 0}"
    by (auto simp: stride_indices_def)
  also have "\<dots> = {k * s |k. k * s < m}"
    by (simp only: stride_count_less_iff [OF assms])
  also have "\<dots> = {j. j < m \<and> s dvd j}"
    by (auto simp: dvd_def mult.commute)
  finally show ?thesis .
qed

lemma distinct_stride_indices:
  assumes "0 < s"
  shows "distinct (stride_indices m s a)"
  unfolding stride_indices_def using assms
  by (simp add: distinct_map inj_on_def)

lemma shift_eq: "ffs sizeof_uint32_t - Suc 0 = 2"
  by code_simp

lemma unat_drop_bit2_lt: "unat (drop_bit 2 (len :: size_t)) < 2 ^ 63"
proof -
  have "unat (drop_bit 2 len) = unat len div 4"
    by (simp add: drop_bit_eq_div unat_div)
  moreover have "unat len < 2 ^ 64"
    using unsigned_less [of len, where 'a = nat] by simp
  ultimately show ?thesis by simp
qed

lemma unat_drop_bit2: "unat (drop_bit 2 (len :: size_t)) = unat len div 4"
  by (simp add: drop_bit_eq_div unat_div)

lemma bench_result:
  assumes "0 < sint step" and "unat (drop_bit 2 len) \<le> length buf"
  shows "bench buf len step =
    Some (Inr (fold (\<lambda>j b. b[j := b ! j * 3])
                 (stride_indices (min (unat (drop_bit 2 len)) (2 ^ 31)) (nat (sint step)) 0) buf,
               stride_indices (min (unat (drop_bit 2 len)) (2 ^ 31)) (nat (sint step)) 0))"
  using bench_loop_unroll [OF assms(1) unat_drop_bit2_lt assms(2), of 0 "[]"]
  by (simp add: bench_def shift_eq)

text \<open>
  Claim C7, as amended. For every buffer, every byte length whose element count
  (length divided by the 4-byte element size) is at most \<open>2^31\<close> and fits the buffer,
  and every positive step (a power of two or not), bench returns, having multiplied by
  3 exactly the elements at the indices \<open>0, step, 2 * step, \<dots>\<close> below the element
  count, every other element unchanged.
\<close>

theorem bench_multiplies_strided_elements:
  assumes "0 < sint step"
    and "unat len div 4 \<le> length buf"
    and "unat len div 4 \<le> 2 ^ 31"
  shows "\<exists>buf' log. bench buf len step = Some (Inr (buf', log))
      \<and> length buf' = length buf
      \<and> (\<forall>j<length buf. buf' ! j =
            (if j < unat len div 4 \<and> nat (sint step) dvd j then buf ! j * 3 else buf ! j))"
proof -
  let ?s = "nat (sint step)"
  let ?n = "unat len div 4"
  let ?js = "stride_indices (min (unat (drop_bit 2 len)) (2 ^ 31)) ?s 0"
  let ?buf' = "fold (\<lambda>j b. b[j := b ! j * 3]) ?js buf"
  have spos: "0 < ?s" using assms(1) by simp
  have m: "min (unat (drop_bit 2 len)) (2 ^ 31) = ?n"
    using assms(3) by (simp only: unat_drop_bit2 min_def if_True)
  have run: "bench buf len step = Some (Inr (?buf', ?js))"
    using assms(1,2) by (intro bench_result) (simp_all only: unat_drop_bit2)
  have set: "set ?js = {j. j < ?n \<and> ?s dvd j}"
    unfolding m using spos by (rule set_stride_indices)
  have "?buf' ! j = (if j < ?n \<and> ?s dvd j then buf ! j * 3 else buf ! j)" if "j < length buf" for j
    using fold_mul3_nth [OF distinct_stride_indices [OF spos] that, of _ 0] set
    by simp
  with run show ?thesis
    by (simp add: fold_mul3_length)
qed

theorem bench_multiplies_strided_elements_witness:
  "\<exists>buf' log. bench [1, 2, 3, 4, 5, 6, 7, 8] 32 2 = Some (Inr (buf', log))
      \<and> length buf' = 8
      \<and> buf' ! 0 = 3 \<and> buf' ! 1 = 2 \<and> buf' ! 2 = 9 \<and> buf' ! 6 = 21 \<and> buf' ! 7 = 8"
proof -
  have h1: "0 < sint (2 :: c_int)" by simp
  have h2: "unat (32 :: size_t) div 4 \<le> length [1, 2, 3, 4, 5, 6, 7, 8 :: uint32_t]" by simp
  have h3: "unat (32 :: size_t) div 4 \<le> 2 ^ 31" by simp
  show ?thesis
    using bench_multiplies_strided_elements [OF h1 h2 h3] by (auto simp: nth_Cons')
qed

text \<open>
  Claim C7 as stated, for every buffer length, fails: the index is an \<open>int\<close>. On a
  buffer of \<open>2^31 + 1\<close> elements with step 1, index \<open>2^31\<close> is below the element count
  but is never reached: after \<open>i = 2^31 - 1\<close> the index wraps and the loop ends, so
  that element is not multiplied by 3.
\<close>

theorem bench_int_index_counterexample:
  "\<not> (\<exists>buf' log. bench (replicate (2 ^ 31 + 1) 1) (4 * (2 ^ 31 + 1)) 1 = Some (Inr (buf', log))
        \<and> buf' ! (2 ^ 31) = replicate (2 ^ 31 + 1) 1 ! (2 ^ 31) * 3)"
proof -
  let ?B = "replicate (2 ^ 31 + 1) (1 :: uint32_t)"
  let ?L = "4 * (2 ^ 31 + 1) :: size_t"
  let ?js = "stride_indices (min (unat (drop_bit 2 ?L)) (2 ^ 31)) (nat (sint (1 :: c_int))) 0"
  have n: "unat (drop_bit 2 ?L) = 2 ^ 31 + 1"
    by (simp add: unat_drop_bit2)
  have m: "min (unat (drop_bit 2 ?L)) (2 ^ 31) = 2 ^ 31"
    unfolding n by simp
  have run: "bench ?B ?L 1 = Some (Inr (fold (\<lambda>j b. b[j := b ! j * 3]) ?js ?B, ?js))"
    by (rule bench_result) (simp_all add: n)
  have "set ?js = {j. j < 2 ^ 31 \<and> nat (sint (1 :: c_int)) dvd j}"
    unfolding m by (rule set_stride_indices) simp
  then have notin: "2 ^ 31 \<notin> set ?js"
    by simp
  have "fold (\<lambda>j b. b[j := b ! j * 3]) ?js ?B ! (2 ^ 31)
      = (if 2 ^ 31 \<in> set ?js then ?B ! (2 ^ 31) * 3 else ?B ! (2 ^ 31))"
    by (rule fold_mul3_nth) (simp_all add: distinct_stride_indices)
  with notin have "fold (\<lambda>j b. b[j := b ! j * 3]) ?js ?B ! (2 ^ 31) = 1"
    by simp
  with run show ?thesis
    by simp
qed

subsection \<open>Memory safety of the workloads\<close>

lemma unat_pred_lt: "(L :: size_t) \<noteq> 0 \<Longrightarrow> unat L \<le> n \<Longrightarrow> unat (L - 1) < n"
  using unat_minus_one [of L] unat_eq_zero [of L] by simp

text \<open>
  Claim C10. Under the driver's preconditions no workload leaves its buffer (no run
  ends in \<open>OutOfBounds\<close>, and each returns): the strided scan with \<open>step \<ge> 1\<close> on a
  buffer holding the element count accesses only indices below the element count; the
  aliasing workload with a length \<open>L \<ge> 1\<close> (a power of two or not) on a buffer of at
  least \<open>L\<close> elements accesses only indices below \<open>L\<close>; the increment workloads on a
  buffer of at least two elements access only index 0 (bench2) and indices 0 and 1
  (bench3).
\<close>

theorem workload_accesses_in_bounds:
  "(0 < sint step \<and> unat len div 4 \<le> length buf \<longrightarrow>
      (\<exists>buf' log. bench buf len step = Some (Inr (buf', log))
         \<and> (\<forall>j\<in>set log. j < unat len div 4)))
   \<and> (L \<noteq> 0 \<and> unat L \<le> length buf \<longrightarrow>
      (\<exists>buf' log. bench1 buf L limit = Inr (buf', log)
         \<and> (\<forall>j\<in>set log. j < unat L)))
   \<and> (2 \<le> length buf \<longrightarrow>
      (\<exists>buf' log. bench2 buf count = Inr (buf', log) \<and> set log \<subseteq> {0})
      \<and> (\<exists>buf' log. bench3 buf count = Inr (buf', log) \<and> set log \<subseteq> {0, 1}))"
proof (intro conjI impI)
  assume h: "0 < sint step \<and> unat len div 4 \<le> length buf"
  let ?m = "min (unat (drop_bit 2 len)) (2 ^ 31)"
  let ?js = "stride_indices ?m (nat (sint step)) 0"
  from h have spos: "0 < nat (sint step)" by simp
  have "bench buf len step = Some (Inr (fold (\<lambda>j b. b[j := b ! j * 3]) ?js buf, ?js))"
    using h by (intro bench_result) (simp_all only: unat_drop_bit2)
  moreover have "\<forall>j\<in>set ?js. j < unat len div 4"
    unfolding set_stride_indices [OF spos] by (simp add: unat_drop_bit2)
  ultimately show "\<exists>buf' log. bench buf len step = Some (Inr (buf', log))
         \<and> (\<forall>j\<in>set log. j < unat len div 4)"
    by blast
next
  assume h: "L \<noteq> 0 \<and> unat L \<le> length buf"
  let ?js = "map (\<lambda>k. bench1_index (L - 1) (0 + of_nat k)) [0..<nat (sint limit - sint (0::c_int))]"
  have lt: "unat (L - 1) < unat L"
    using h by (intro unat_pred_lt) simp_all
  with h have inb: "unat (L - 1) < length buf" by simp
  have "bench1 buf L limit = Inr (fold (\<lambda>j b. b[j := b ! j + 1]) ?js buf, [] @ ?js)"
    unfolding bench1_def Let_def by (rule bench1_loop_unroll [OF inb refl])
  moreover have "\<forall>j\<in>set ?js. j < unat L"
    using lt bench1_index_le [of "L - 1"] by (auto intro: le_less_trans)
  ultimately show "\<exists>buf' log. bench1 buf L limit = Inr (buf', log) \<and> (\<forall>j\<in>set log. j < unat L)"
    by simp
next
  assume h: "2 \<le> length buf"
  let ?N = "nat (sint count - sint (0::c_int))"
  have "bench2 buf count = Inr (buf[0 := buf ! 0 + of_nat (2 * ?N)], [] @ replicate (2 * ?N) 0)"
    unfolding bench2_def using h by (intro bench2_loop_unroll) auto
  then show "\<exists>buf' log. bench2 buf count = Inr (buf', log) \<and> set log \<subseteq> {0}"
    by auto
  have "bench3 buf count = Inr (buf[0 := buf ! 0 + of_nat ?N, 1 := buf ! 1 + of_nat ?N],
                                 [] @ concat (replicate ?N [0, 1]))"
    unfolding bench3_def using h by (intro bench3_loop_unroll) simp_all
  then show "\<exists>buf' log. bench3 buf count = Inr (buf', log) \<and> set log \<subseteq> {0, 1}"
    by auto
qed

theorem workload_accesses_in_bounds_witness:
  "(\<exists>buf' log. bench [1, 2, 3, 4, 5, 6, 7, 8] 32 2 = Some (Inr (buf', log))
       \<and> (\<forall>j\<in>set log. j < 8))
   \<and> (\<exists>buf' log. bench1 [1, 2, 3, 4, 5, 6, 7, 8] 8 5 = Inr (buf', log)
       \<and> (\<forall>j\<in>set log. j < 8))
   \<and> (\<exists>buf' log. bench2 [1, 2, 3, 4, 5, 6, 7, 8] 3 = Inr (buf', log) \<and> set log \<subseteq> {0})
   \<and> (\<exists>buf' log. bench3 [1, 2, 3, 4, 5, 6, 7, 8] 3 = Inr (buf', log) \<and> set log \<subseteq> {0, 1})"
  using workload_accesses_in_bounds
    [where step = 2 and len = 32 and buf = "[1, 2, 3, 4, 5, 6, 7, 8]" and L = 8
       and limit = 5 and count = 3]
  by simp

section \<open>Properties of the prologue\<close>

text \<open>The events of a prologue that touches the given offsets: each touch is followed by
  the flush of offset 0.\<close>

definition touch_flush :: "nat list \<Rightarrow> mem_event list" where
  "touch_flush offs = concat (map (\<lambda>a. [Touch a, Clflush 0]) offs)"

lemma touch_in:
  "j < length buf \<Longrightarrow> touch (buf, ev) (int j) = Inr (buf, ev @ [Touch j])"
  by (simp add: touch_def)

lemma touch_Inr: "touch (buf, ev) i = Inr (buf', ev') \<Longrightarrow> buf' = buf"
  by (auto simp: touch_def split: if_splits)

lemma prologue_loop_region:
  assumes "prologue_loop p st i sz = Some r"
  shows "\<forall>st'. r = Inr st' \<longrightarrow> fst st' = fst st"
proof (rule prologue_loop.raw_induct
    [where P = "\<lambda>p st i sz r. \<forall>st'. r = Inr st' \<longrightarrow> fst st' = fst st", OF _ assms])
  fix loop :: "size_t \<Rightarrow> prologue_state \<Rightarrow> c_long \<Rightarrow> size_t \<Rightarrow> (error + prologue_state) option"
  fix p st i sz r
  assume IH: "\<And>p st i sz r. loop p st i sz = Some r
      \<Longrightarrow> \<forall>st'. r = Inr st' \<longrightarrow> fst st' = fst st"
  assume body: "(case touch st (sint i) of
        Inl e \<Rightarrow> Some (Inl e)
      | Inr st1 \<Rightarrow>
          (let st2 = clflush st1 0 in
           if sz < p then Some (Inr st2)
           else
             (let sz' = sz - p;
                  i' = i + p
              in if sz' \<noteq> 0 then loop p st2 i' sz' else Some (Inr st2)))) = Some r"
  obtain buf ev where st: "st = (buf, ev)" by (cases st)
  show "\<forall>st'. r = Inr st' \<longrightarrow> fst st' = fst st"
  proof (cases "touch st (sint i)")
    case (Inl e)
    with body show ?thesis by auto
  next
    case (Inr st1)
    then have b1: "fst st1 = buf"
      unfolding st by (cases st1) (auto dest: touch_Inr)
    then have b2: "fst (clflush st1 0) = buf"
      by (cases st1) (simp add: clflush_def)
    show ?thesis
    proof (cases "sz < p \<or> sz - p = 0")
      case True
      with body Inr b2 st show ?thesis
        by (auto simp: Let_def split: if_splits)
    next
      case False
      with body Inr have "loop p (clflush st1 0) (i + p) (sz - p) = Some r"
        by (simp add: Let_def)
      from IH [OF this] b2 st show ?thesis by simp
    qed
  qed
qed

lemma sint_eq_unat: "unat (i :: c_long) < 2 ^ 63 \<Longrightarrow> sint i = int (unat i)"
proof -
  assume "unat i < 2 ^ 63"
  then have "int (unat i) < int (2 ^ 63)" by (simp only: of_nat_less_iff)
  then have lt: "uint i < 2 ^ 63" by simp
  have "(- (2 ^ 63) :: int) \<le> 0" by simp
  also have "0 \<le> uint i" by simp
  finally have ge: "- (2 ^ 63) \<le> uint i" .
  have "signed_take_bit 63 (uint i) = uint i"
    using ge lt by (rule signed_take_bit_int_eq_self)
  moreover have "sint i = signed_take_bit 63 (uint i)"
    by (simp add: sint_uint)
  ultimately show ?thesis by simp
qed

lemma prologue_loop_unroll:
  assumes p: "0 < unat p"
  shows "0 < unat sz \<Longrightarrow> unat i + unat sz \<le> length buf \<Longrightarrow> unat i + unat sz < 2 ^ 63 \<Longrightarrow>
    prologue_loop p (buf, ev) i sz =
      Some (Inr (buf, ev @ touch_flush (stride_indices (unat i + unat sz) (unat p) (unat i))))"
proof (induction "unat sz" arbitrary: sz i ev rule: less_induct)
  case less
  let ?a = "unat i"
  let ?m = "unat i + unat sz"
  have a: "?a < length buf" and am: "?a < ?m" and a63: "?a < 2 ^ 63"
    using less.prems by simp_all
  have t: "touch (buf, ev) (sint i) = Inr (buf, ev @ [Touch ?a])"
    using touch_in [OF a] a63 by (simp add: sint_eq_unat)
  have ind: "stride_indices ?m (unat p) ?a = ?a # stride_indices ?m (unat p) (?a + unat p)"
    using p am by (rule stride_indices_step)
  show ?case
  proof (cases "sz < p \<or> sz - p = 0")
    case True
    then have "unat sz \<le> unat p"
      by (auto simp: word_less_nat_alt)
    then have "stride_indices ?m (unat p) (?a + unat p) = []"
      using p by (intro stride_indices_done) simp_all
    moreover have "prologue_loop p (buf, ev) i sz = Some (Inr (buf, ev @ [Touch ?a, Clflush 0]))"
      using True by (subst prologue_loop.simps) (auto simp: t clflush_def Let_def)
    ultimately show ?thesis
      unfolding ind by (simp add: touch_flush_def)
  next
    case False
    then have ge: "unat p \<le> unat sz" and ne: "sz - p \<noteq> 0"
      by (simp_all add: word_less_nat_alt)
    have sub: "unat (sz - p) = unat sz - unat p"
      using ge by (simp add: unat_sub word_le_nat_alt)
    have "unat i + unat p < 2 ^ 64"
      using ge less.prems(3) by simp
    then have add: "unat (i + p) = unat i + unat p"
      by (simp add: unat_add_lem [THEN iffD1])
    have pos: "0 < unat (sz - p)"
      using ne by (simp add: unat_gt_0)
    have tot: "unat (i + p) + unat (sz - p) = ?m"
      using ge by (simp add: sub add)
    have step: "prologue_loop p (buf, ev) i sz
        = prologue_loop p (buf, ev @ [Touch ?a, Clflush 0]) (i + p) (sz - p)"
      using False by (subst prologue_loop.simps) (auto simp: t clflush_def Let_def)
    have "prologue_loop p (buf, ev @ [Touch ?a, Clflush 0]) (i + p) (sz - p)
        = Some (Inr (buf, (ev @ [Touch ?a, Clflush 0])
            @ touch_flush (stride_indices (unat (i + p) + unat (sz - p)) (unat p) (unat (i + p)))))"
    proof (rule less.hyps)
      show "unat (sz - p) < unat sz" using p ge by (simp add: sub)
      show "0 < unat (sz - p)" by (rule pos)
      show "unat (i + p) + unat (sz - p) \<le> length buf" using less.prems(2) by (simp only: tot)
      show "unat (i + p) + unat (sz - p) < 2 ^ 63" using less.prems(3) by (simp only: tot)
    qed
    then have "prologue_loop p (buf, ev @ [Touch ?a, Clflush 0]) (i + p) (sz - p)
        = Some (Inr (buf, (ev @ [Touch ?a, Clflush 0])
            @ touch_flush (stride_indices ?m (unat p) (?a + unat p))))"
      by (simp only: tot) (simp only: add)
    then show ?thesis
      unfolding step ind by (simp add: touch_flush_def)
  qed
qed

text \<open>
  Claim C9. benchmark_prologue leaves the region unchanged: whatever the region, the
  size, the page size and the outcome of the system calls, a prologue that returns
  returns the bytes it was given, since each touch stores back the byte it read; and
  under the driver's conditions (a positive page size, a size between 1 and the length
  of the region, both system calls succeeding) it does return.
\<close>

theorem prologue_preserves_region:
  "(\<forall>r. benchmark_prologue page_size getrusage_res gettimeofday_res buf sz = Some (Inr r)
        \<longrightarrow> region r = buf)
   \<and> (0 < unat page_size \<and> 0 < unat sz \<and> unat sz \<le> length buf \<and> unat sz < 2 ^ 63
        \<and> getrusage_res \<noteq> None \<and> gettimeofday_res \<noteq> None
      \<longrightarrow> (\<exists>r. benchmark_prologue page_size getrusage_res gettimeofday_res buf sz = Some (Inr r)
            \<and> region r = buf))"
proof (intro conjI allI impI)
  fix r
  assume "benchmark_prologue page_size getrusage_res gettimeofday_res buf sz = Some (Inr r)"
  then obtain buf' ev where loop: "prologue_loop page_size (buf, []) 0 sz = Some (Inr (buf', ev))"
    and r: "region r = buf'"
    by (auto simp: benchmark_prologue_def split: option.splits sum.splits prod.splits)
  from prologue_loop_region [OF loop] have "buf' = buf" by simp
  with r show "region r = buf" by simp
next
  assume h: "0 < unat page_size \<and> 0 < unat sz \<and> unat sz \<le> length buf \<and> unat sz < 2 ^ 63
        \<and> getrusage_res \<noteq> None \<and> gettimeofday_res \<noteq> None"
  then have "prologue_loop page_size (buf, []) 0 sz
      = Some (Inr (buf, [] @ touch_flush (stride_indices (unat (0 :: c_long) + unat sz) (unat page_size) (unat (0 :: c_long)))))"
    by (intro prologue_loop_unroll) simp_all
  with h show "\<exists>r. benchmark_prologue page_size getrusage_res gettimeofday_res buf sz = Some (Inr r)
            \<and> region r = buf"
    by (auto simp: benchmark_prologue_def prologue_snapshots_def)
qed

theorem prologue_preserves_region_witness:
  "\<exists>r. benchmark_prologue 4 (Some \<lparr>ru_majflt = 0, ru_minflt = 0, ru_nvcsw = 0, ru_nivcsw = 0\<rparr>)
          (Some \<lparr>tv_sec = 0, tv_usec = 0\<rparr>) [1, 2, 3, 4, 5, 6, 7, 8] 8 = Some (Inr r)
      \<and> region r = [1, 2, 3, 4, 5, 6, 7, 8]"
  using prologue_preserves_region
    [where page_size = 4 and sz = 8 and buf = "[1, 2, 3, 4, 5, 6, 7, 8]"
       and getrusage_res = "Some \<lparr>ru_majflt = 0, ru_minflt = 0, ru_nvcsw = 0, ru_nivcsw = 0\<rparr>"
       and gettimeofday_res = "Some \<lparr>tv_sec = 0, tv_usec = 0\<rparr>"]
  by simp

text \<open>
  Claim C1 (a defect of the code). On a region of two pages (8192 bytes, page size 4096)
  the prologue touches offsets 0 and 4096, one write per page, but both flushes are of
  offset 0: the source calls \<open>clflush(buf)\<close>, not \<open>clflush(buf + i)\<close>, so the line of the
  second touch is never invalidated.
\<close>

theorem prologue_flushes_region_start:
  "\<exists>r. benchmark_prologue 4096 (Some ru) (Some tv) (replicate 8192 0) 8192 = Some (Inr r)
      \<and> mem_events r = [Touch 0, Clflush 0, Touch 4096, Clflush 0]"
proof -
  have "prologue_loop 4096 (replicate 8192 0, []) 0 8192
      = Some (Inr (replicate 8192 0, [] @ touch_flush
          (stride_indices (unat (0 :: c_long) + unat (8192 :: size_t)) (unat (4096 :: size_t))
             (unat (0 :: c_long)))))"
    by (rule prologue_loop_unroll) simp_all
  moreover have "stride_indices 8192 4096 0 = [0, 4096]"
    by (simp add: stride_indices_def stride_count_def upt_conv_Cons)
  ultimately have "prologue_loop 4096 (replicate 8192 0, []) 0 8192
      = Some (Inr (replicate 8192 0, [Touch 0, Clflush 0, Touch 4096, Clflush 0]))"
    by (simp add: touch_flush_def)
  then show ?thesis
    by (simp add: benchmark_prologue_def prologue_snapshots_def)
qed

section \<open>Properties of the epilogue\<close>

text \<open>
  The template of the report line as the specification words it, and as the format
  string of the source has it (a comma after the major-fault count and after the
  voluntary-switch count). \<open>unpad\<close> removes the blanks, padding included.
\<close>

definition spec_report_line ::
  "string \<Rightarrow> string \<Rightarrow> string \<Rightarrow> string \<Rightarrow> string \<Rightarrow> string \<Rightarrow> string \<Rightarrow> string" where
  "spec_report_line val unit elapsed_us major_faults minor_faults voluntary_switches
      involuntary_switches =
     ''step: '' @ val @ unit @ '', diff: '' @ elapsed_us @ ''(us) hf: '' @ major_faults
     @ '' sf '' @ minor_faults @ '', nvcs: '' @ voluntary_switches
     @ '' nivcs: '' @ involuntary_switches"

definition report_line ::
  "string \<Rightarrow> string \<Rightarrow> string \<Rightarrow> string \<Rightarrow> string \<Rightarrow> string \<Rightarrow> string \<Rightarrow> string" where
  "report_line val unit elapsed_us major_faults minor_faults voluntary_switches
      involuntary_switches =
     ''step: '' @ val @ unit @ '', diff: '' @ elapsed_us @ ''(us) hf: '' @ major_faults
     @ '', sf '' @ minor_faults @ '', nvcs: '' @ voluntary_switches
     @ '', nivcs: '' @ involuntary_switches"

definition unpad :: "string \<Rightarrow> string" where
  "unpad s = filter (\<lambda>c. c \<noteq> CHR '' '') s"

lemma digit_not_blank: "n < 10 \<Longrightarrow> digit n \<noteq> CHR '' ''"
  by (auto simp: digit_def less_Suc_eq numeral_eq_Suc)

lemma unpad_dec: "unpad (dec n) = dec n"
proof (induction n rule: dec.induct)
  case (1 n)
  show ?case
  proof (cases "n < 10")
    case True
    then show ?thesis
      by (subst (1 2) dec.simps) (simp add: unpad_def digit_not_blank)
  next
    case False
    moreover have "n mod 10 < 10" by simp
    ultimately show ?thesis
      using 1 by (subst (1 2) dec.simps) (simp add: unpad_def digit_not_blank)
  qed
qed

lemma unpad_append: "unpad (a @ b) = unpad a @ unpad b"
  by (simp add: unpad_def)

lemma unpad_fmt_lu: "unpad (fmt_lu w v) = dec (unat v)"
  using unpad_dec [of "unat v"] by (simp add: fmt_lu_def pad_left_def unpad_def)

lemma bytes_to_prefix_Some:
  "\<exists>v u. bytes_to_prefix step (Some p) = (v, Some u)"
  by (simp add: bytes_to_prefix_def Let_def split: prod.splits if_splits)

text \<open>
  Claim C8, as amended. Every report line that benchmark_epilogue emits is, followed by
  a newline, the template
  \<open>step: <value><unit>, diff: <elapsed_us>(us) hf: <major_faults>, sf <minor_faults>,
  nvcs: <voluntary_switches>, nivcs: <involuntary_switches>\<close>
  with the fields right-aligned in 4, 6, 2, 2, 1 and 2 columns, where value and unit
  come from bytes_to_prefix, the elapsed time is the difference of the two clock
  readings in microseconds and the four counters are the end snapshot minus the begin
  snapshot. Modulo padding it is that template filled with the decimal numbers.
\<close>

theorem epilogue_report_line:
  assumes "benchmark_epilogue su t0 step gettimeofday_res getrusage_res = Inr (eu, line)"
  shows "\<exists>stop v u.
      gettimeofday_res = Some stop \<and> getrusage_res = Some eu
    \<and> bytes_to_prefix step (Some '' '') = (v, Some u)
    \<and> line = report_line (fmt_lu 4 v) u
          (fmt_lu 6 ((tv_sec stop - tv_sec t0) * 1000000 + tv_usec stop - tv_usec t0))
          (fmt_lu 2 (ru_majflt eu - ru_majflt su))
          (fmt_lu 2 (ru_minflt eu - ru_minflt su))
          (fmt_lu 1 (ru_nvcsw eu - ru_nvcsw su))
          (fmt_lu 2 (ru_nivcsw eu - ru_nivcsw su)) @ [CHR 0x0A]
    \<and> unpad line = unpad (report_line (dec (unat v)) u
          (dec (unat ((tv_sec stop - tv_sec t0) * 1000000 + tv_usec stop - tv_usec t0)))
          (dec (unat (ru_majflt eu - ru_majflt su)))
          (dec (unat (ru_minflt eu - ru_minflt su)))
          (dec (unat (ru_nvcsw eu - ru_nvcsw su)))
          (dec (unat (ru_nivcsw eu - ru_nivcsw su))) @ [CHR 0x0A])"
proof -
  from assms obtain stop where tv: "gettimeofday_res = Some stop"
    by (auto simp: benchmark_epilogue_def timediff_def split: option.splits)
  from assms tv have ru: "getrusage_res = Some eu"
    by (auto simp: benchmark_epilogue_def timediff_def Let_def split: option.splits prod.splits)
  obtain v u where btp: "bytes_to_prefix step (Some '' '') = (v, Some u)"
    using bytes_to_prefix_Some by blast
  let ?e = "(tv_sec stop - tv_sec t0) * 1000000 + tv_usec stop - tv_usec t0"
  have line: "line = report_line (fmt_lu 4 v) u (fmt_lu 6 ?e)
          (fmt_lu 2 (ru_majflt eu - ru_majflt su))
          (fmt_lu 2 (ru_minflt eu - ru_minflt su))
          (fmt_lu 1 (ru_nvcsw eu - ru_nvcsw su))
          (fmt_lu 2 (ru_nivcsw eu - ru_nivcsw su)) @ [CHR 0x0A]"
    using assms
    by (simp add: benchmark_epilogue_def timediff_def tv ru btp Let_def report_line_def fmt_s_def)
  have "unpad line = unpad (report_line (dec (unat v)) u (dec (unat ?e))
          (dec (unat (ru_majflt eu - ru_majflt su)))
          (dec (unat (ru_minflt eu - ru_minflt su)))
          (dec (unat (ru_nvcsw eu - ru_nvcsw su)))
          (dec (unat (ru_nivcsw eu - ru_nivcsw su))) @ [CHR 0x0A])"
    unfolding line report_line_def
    by (simp only: unpad_append unpad_fmt_lu unpad_dec)
  with tv ru btp line show ?thesis
    by blast
qed

theorem epilogue_report_line_witness:
  "\<exists>v u. bytes_to_prefix 65536 (Some '' '') = (v, Some u)
      \<and> ''step:   64k, diff:     16(us) hf:  0, sf  2, nvcs: 0, nivcs:  1'' @ [CHR 0x0A]
          = report_line (fmt_lu 4 v) u (fmt_lu 6 16) (fmt_lu 2 0) (fmt_lu 2 2) (fmt_lu 1 0)
              (fmt_lu 2 1) @ [CHR 0x0A]"
proof -
  have run: "benchmark_epilogue \<lparr>ru_majflt = 0, ru_minflt = 5, ru_nvcsw = 0, ru_nivcsw = 0\<rparr>
      \<lparr>tv_sec = 1, tv_usec = 999999\<rparr> 65536 (Some \<lparr>tv_sec = 2, tv_usec = 15\<rparr>)
      (Some \<lparr>ru_majflt = 0, ru_minflt = 7, ru_nvcsw = 0, ru_nivcsw = 1\<rparr>)
    = Inr (\<lparr>ru_majflt = 0, ru_minflt = 7, ru_nvcsw = 0, ru_nivcsw = 1\<rparr>,
        ''step:   64k, diff:     16(us) hf:  0, sf  2, nvcs: 0, nivcs:  1'' @ [CHR 0x0A])"
    by code_simp
  show ?thesis
    using epilogue_report_line [OF run] by auto
qed

text \<open>
  Claim C8 as stated fails: the line printed for step 65536 is not, even with every
  blank removed, the specification's template filled with the same values, which has no
  comma after the major-fault count nor after the voluntary-switch count.
\<close>

theorem epilogue_spec_template_counterexample:
  "benchmark_epilogue \<lparr>ru_majflt = 0, ru_minflt = 5, ru_nvcsw = 0, ru_nivcsw = 0\<rparr>
      \<lparr>tv_sec = 1, tv_usec = 999999\<rparr> 65536 (Some \<lparr>tv_sec = 2, tv_usec = 15\<rparr>)
      (Some \<lparr>ru_majflt = 0, ru_minflt = 7, ru_nvcsw = 0, ru_nivcsw = 1\<rparr>)
    = Inr (\<lparr>ru_majflt = 0, ru_minflt = 7, ru_nvcsw = 0, ru_nivcsw = 1\<rparr>,
        ''step:   64k, diff:     16(us) hf:  0, sf  2, nvcs: 0, nivcs:  1'' @ [CHR 0x0A])
   \<and> unpad (''step:   64k, diff:     16(us) hf:  0, sf  2, nvcs: 0, nivcs:  1'' @ [CHR 0x0A])
      \<noteq> unpad (spec_report_line ''64'' ''k'' ''16'' ''0'' ''2'' ''0'' ''1'' @ [CHR 0x0A])"
  by code_simp

section \<open>Properties of the driver\<close>

text \<open>
  The part of a trace that concerns the life of the regions: the map calls, the unmap
  calls and the report lines. \<open>per_iteration\<close> holds of such a list when it is made of
  rounds of one map, one report line and the matching unmap.
\<close>

datatype lifecycle_event = Map_region size_t | Unmap_region size_t | Report

fun lifecycle :: "event list \<Rightarrow> lifecycle_event list" where
  "lifecycle [] = []"
| "lifecycle (Mmap sz # es) = Map_region sz # lifecycle es"
| "lifecycle (Munmap sz # es) = Unmap_region sz # lifecycle es"
| "lifecycle (Printf line # es) = Report # lifecycle es"
| "lifecycle (e # es) = lifecycle es"

fun per_iteration :: "lifecycle_event list \<Rightarrow> bool" where
  "per_iteration [] = True"
| "per_iteration (Map_region a # Report # Unmap_region b # rest) = (a = b \<and> per_iteration rest)"
| "per_iteration _ = False"

text \<open>An operating system on which every call that the program checks succeeds.\<close>

definition os_calls_succeed :: "os \<Rightarrow> bool" where
  "os_calls_succeed os \<longleftrightarrow>
     (\<forall>h. sched_setscheduler os h = 0 \<and> \<not> mmap_failed os h \<and> munmap os h \<noteq> - 1
          \<and> getrusage os h \<noteq> None \<and> gettimeofday os h \<noteq> None)"

definition os_ok :: os where
  "os_ok =
     \<lparr>getpagesize = 4096,
      sched_setaffinity = (\<lambda>h. 0),
      sched_setscheduler = (\<lambda>h. 0),
      mmap_failed = (\<lambda>h. False),
      munmap = (\<lambda>h. 0),
      getrusage = (\<lambda>h. Some \<lparr>ru_majflt = 0, ru_minflt = 0, ru_nvcsw = 0, ru_nivcsw = 0\<rparr>),
      gettimeofday = (\<lambda>h. Some \<lparr>tv_sec = 0, tv_usec = 0\<rparr>)\<rparr>"

definition os_affinity_fails :: os where
  "os_affinity_fails = os_ok\<lparr>sched_setaffinity := (\<lambda>h. - 1)\<rparr>"

text \<open>An operating system on which \<open>getrusage\<close> fails in the epilogue of the aliasing
  workload, that is in the first iteration of the working-set experiment, and every
  other call succeeds.\<close>

definition os_getrusage_fails :: os where
  "os_getrusage_fails =
     os_ok\<lparr>getrusage :=
       (\<lambda>h. case rev h of
               Run (Bench1 len limit) # before \<Rightarrow> None
             | _ \<Rightarrow> Some \<lparr>ru_majflt = 0, ru_minflt = 0, ru_nvcsw = 0, ru_nivcsw = 0\<rparr>)\<rparr>"

text \<open>What the three experiments contribute to the lifecycle of a run without failure.\<close>

definition example2_lifecycle :: "lifecycle_event list" where
  "example2_lifecycle =
     Map_region (MEGABYTES 64) # replicate 13 Report @ [Unmap_region (MEGABYTES 64)]"

definition example3_lifecycle :: "lifecycle_event list" where
  "example3_lifecycle =
     concat (map (\<lambda>j. [Map_region (2 ^ j), Report, Unmap_region (2 ^ j)]) [10..<31])"

definition example4_lifecycle :: "os \<Rightarrow> lifecycle_event list" where
  "example4_lifecycle os =
     [Map_region (scast (getpagesize os)), Report, Report, Unmap_region (scast (getpagesize os))]"

text \<open>The rounds of the working-set experiment for the steps \<open>2^a\<close> up to, not including,
  \<open>2^b\<close>; and the state a run ends in, whether it died or not.\<close>

definition example3_rounds :: "nat \<Rightarrow> nat \<Rightarrow> lifecycle_event list" where
  "example3_rounds a b =
     concat (map (\<lambda>j. [Map_region (2 ^ j), Report, Unmap_region (2 ^ j)]) [a..<b])"

definition final_state :: "proc + proc \<Rightarrow> proc" where
  "final_state r = (case r of Inl s \<Rightarrow> s | Inr s \<Rightarrow> s)"

lemma unat_pow2: "k < 64 \<Longrightarrow> unat (2 ^ k :: size_t) = 2 ^ k"
proof -
  assume "k < 64"
  then have "(2 ^ k :: size_t) \<noteq> 0" by simp
  then have "(0 :: size_t) < 2 ^ k" by (simp add: word_gt_0)
  then show ?thesis by (simp add: unat_eq_nat_uint uint_2p)
qed

lemma pow2_le_iff: "j < 64 \<Longrightarrow> k < 64 \<Longrightarrow> (2 ^ j :: size_t) \<le> 2 ^ k \<longleftrightarrow> j \<le> k"
  by (simp add: word_le_nat_alt unat_pow2)

lemma push_bit1_pow2: "push_bit 1 (2 ^ k :: size_t) = 2 ^ Suc k"
  by (simp add: push_bit_eq_mult)

lemma pow2_le_4096: "k \<le> 12 \<Longrightarrow> (2 ^ k :: size_t) \<le> 4096"
proof -
  assume "k \<le> 12"
  then have "(2 ^ k :: size_t) \<le> 2 ^ 12"
    by (intro pow2_le_iff [THEN iffD2]) simp_all
  moreover have "(2 ^ 12 :: size_t) = 4096" by simp
  ultimately show ?thesis by (simp only:)
qed

lemma pow2_le_GIGABYTES: "k \<le> 30 \<Longrightarrow> (2 ^ k :: size_t) \<le> GIGABYTES 1"
proof -
  assume "k \<le> 30"
  then have "(2 ^ k :: size_t) \<le> 2 ^ 30"
    by (intro pow2_le_iff [THEN iffD2]) simp_all
  moreover have "GIGABYTES 1 = 2 ^ 30" by (simp add: GIGABYTES_def)
  ultimately show ?thesis by (simp only:)
qed

lemma region_size_pow2:
  assumes "2 \<le> k" and "k < 64"
  shows "drop_bit (ffs sizeof_uint32_t - 1) (2 ^ k :: size_t) * ucast sizeof_uint32_t = 2 ^ k"
proof -
  from assms(1) obtain m where k: "k = m + 2"
    by (metis add.commute le_Suc_ex)
  have "drop_bit 2 (2 ^ (m + 2) :: size_t) = 2 ^ m"
    using assms(2) k by (simp add: drop_bit_exp_eq possible_bit_word del: power_Suc)
  moreover have "(ucast sizeof_uint32_t :: size_t) = 4"
    by (simp add: sizeof_uint32_t_def)
  moreover have "(2 ^ m :: size_t) * 4 = 2 ^ (m + 2)"
    by simp
  moreover have "ffs sizeof_uint32_t - 1 = 2"
    using shift_eq by simp
  ultimately show ?thesis
    by (simp only: k)
qed

lemma lifecycle_append: "lifecycle (a @ b) = lifecycle a @ lifecycle b"
  by (induction a rule: lifecycle.induct) simp_all

lemma benchmark_epilogue_Some:
  "\<exists>line. benchmark_epilogue su st step (Some tv) (Some ru) = Inr (ru, line)"
  using bytes_to_prefix_Some [of step "'' ''"]
  by (auto simp: benchmark_epilogue_def timediff_def Let_def)

lemma do_mmap_ok:
  assumes "os_calls_succeed os"
  shows "\<exists>s'. do_mmap os s sz = Inr s'
    \<and> lifecycle (trace s') = lifecycle (trace s) @ [Map_region sz]"
  using assms by (simp add: os_calls_succeed_def do_mmap_def emit_def Let_def lifecycle_append)

lemma do_munmap_ok:
  assumes "os_calls_succeed os"
  shows "\<exists>s'. do_munmap os s sz = Inr s'
    \<and> lifecycle (trace s') = lifecycle (trace s) @ [Unmap_region sz]"
  using assms by (simp add: os_calls_succeed_def do_munmap_def emit_def Let_def lifecycle_append)

lemma main_prologue_ok:
  assumes "os_calls_succeed os"
  shows "\<exists>s'. main_prologue os s sz = Inr s' \<and> lifecycle (trace s') = lifecycle (trace s)"
proof -
  let ?h = "trace (emit s (Prefault sz))"
  from assms obtain ru tv where "getrusage os ?h = Some ru" and "gettimeofday os ?h = Some tv"
    unfolding os_calls_succeed_def by (meson option.exhaust)
  then show ?thesis
    by (simp add: main_prologue_def Let_def prologue_snapshots_def emit_def lifecycle_append)
qed

lemma main_epilogue_ok:
  assumes "os_calls_succeed os"
  shows "\<exists>s'. main_epilogue os (emit s (Run w)) step = Inr s'
    \<and> lifecycle (trace s') = lifecycle (trace s) @ [Report]"
proof -
  let ?s = "emit s (Run w)"
  from assms obtain ru tv where ru: "getrusage os (trace ?s) = Some ru"
    and tv: "gettimeofday os (trace ?s) = Some tv"
    unfolding os_calls_succeed_def by (meson option.exhaust)
  obtain line where "benchmark_epilogue (susage ?s) (start ?s) step (Some tv) (Some ru) = Inr (ru, line)"
    using benchmark_epilogue_Some by blast
  then show ?thesis
    by (simp add: main_epilogue_def ru tv) (simp add: emit_def lifecycle_append)
qed

lemma example2_loop_ok:
  assumes ok: "os_calls_succeed os"
  shows "n = 13 - k \<Longrightarrow> k \<le> 13 \<Longrightarrow>
    \<exists>s'. example2_loop os sz s (2 ^ k) = Some (Inr s')
      \<and> lifecycle (trace s') = lifecycle (trace s) @ replicate n Report"
proof (induction n arbitrary: k s)
  case 0
  then have "k = 13" by simp
  then have "\<not> (2 ^ k :: size_t) \<le> 4096" by simp
  then show ?case
    by (subst example2_loop.simps) simp
next
  case (Suc n)
  then have k: "k \<le> 12" by simp
  then have le: "(2 ^ k :: size_t) \<le> 4096"
    by (rule pow2_le_4096)
  obtain s1 where s1: "main_prologue os s sz = Inr s1"
    and l1: "lifecycle (trace s1) = lifecycle (trace s)"
    using main_prologue_ok [OF ok] by blast
  obtain s2 where s2: "main_epilogue os (emit s1 (Run (Bench sz (ucast (2 ^ k :: size_t))))) (2 ^ k) = Inr s2"
    and l2: "lifecycle (trace s2) = lifecycle (trace s1) @ [Report]"
    using main_epilogue_ok [OF ok] by blast
  have "n = 13 - Suc k" and "Suc k \<le> 13"
    using Suc.prems by simp_all
  then obtain s' where s': "example2_loop os sz s2 (2 ^ Suc k) = Some (Inr s')"
    and l': "lifecycle (trace s') = lifecycle (trace s2) @ replicate n Report"
    using Suc.IH by blast
  have "example2_loop os sz s (2 ^ k) = Some (Inr s')"
    using le by (subst example2_loop.simps) (simp only: s1 s2 s' push_bit1_pow2 if_True sum.case)
  with l1 l2 l' show ?case
    by (simp add: replicate_append_same)
qed

lemma example3_loop_ok:
  assumes ok: "os_calls_succeed os"
  shows "n = 31 - k \<Longrightarrow> 10 \<le> k \<Longrightarrow> k \<le> 31 \<Longrightarrow>
    \<exists>s'. example3_loop os s (2 ^ k) = Some (Inr s')
      \<and> lifecycle (trace s')
          = lifecycle (trace s)
            @ concat (map (\<lambda>j. [Map_region (2 ^ j), Report, Unmap_region (2 ^ j)]) [k..<31])"
proof (induction n arbitrary: k s)
  case 0
  then have "k = 31" by simp
  then have "\<not> (2 ^ k :: size_t) \<le> GIGABYTES 1" by (simp add: GIGABYTES_def)
  then show ?case
    using \<open>k = 31\<close> by (subst example3_loop.simps) simp
next
  case (Suc n)
  then have k: "k \<le> 30" by simp
  from k have le: "(2 ^ k :: size_t) \<le> GIGABYTES 1"
    by (rule pow2_le_GIGABYTES)
  let ?len = "drop_bit (ffs sizeof_uint32_t - 1) (2 ^ k :: size_t)"
  have sz: "?len * ucast sizeof_uint32_t = 2 ^ k"
    using Suc.prems k by (intro region_size_pow2) simp_all
  obtain s1 where s1: "do_mmap os s (2 ^ k) = Inr s1"
    and l1: "lifecycle (trace s1) = lifecycle (trace s) @ [Map_region (2 ^ k)]"
    using do_mmap_ok [OF ok] by blast
  obtain s2 where s2: "main_prologue os s1 (2 ^ k) = Inr s2"
    and l2: "lifecycle (trace s2) = lifecycle (trace s1)"
    using main_prologue_ok [OF ok] by blast
  obtain s3 where s3: "main_epilogue os (emit s2 (Run (Bench1 ?len (ucast (MEGABYTES 64))))) (2 ^ k) = Inr s3"
    and l3: "lifecycle (trace s3) = lifecycle (trace s2) @ [Report]"
    using main_epilogue_ok [OF ok] by blast
  obtain s4 where s4: "do_munmap os s3 (2 ^ k) = Inr s4"
    and l4: "lifecycle (trace s4) = lifecycle (trace s3) @ [Unmap_region (2 ^ k)]"
    using do_munmap_ok [OF ok] by blast
  have "n = 31 - Suc k" and "10 \<le> Suc k" and "Suc k \<le> 31"
    using Suc.prems by simp_all
  then obtain s' where s': "example3_loop os s4 (2 ^ Suc k) = Some (Inr s')"
    and l': "lifecycle (trace s') = lifecycle (trace s4)
          @ concat (map (\<lambda>j. [Map_region (2 ^ j), Report, Unmap_region (2 ^ j)]) [Suc k..<31])"
    using Suc.IH by blast
  have "example3_loop os s (2 ^ k) = Some (Inr s')"
    using le
    by (subst example3_loop.simps) (simp only: Let_def sz s1 s2 s3 s4 s' push_bit1_pow2 if_True sum.case)
  moreover have "[k..<31] = k # [Suc k..<31]"
    using k by (simp add: upt_conv_Cons)
  ultimately show ?case
    using l1 l2 l3 l4 l' by simp
qed

lemma example4_ok:
  assumes ok: "os_calls_succeed os"
  shows "\<exists>s'. example4 os s = Inr s'
    \<and> lifecycle (trace s') = lifecycle (trace s) @ example4_lifecycle os"
proof -
  let ?sz = "scast (getpagesize os) :: size_t"
  obtain s1 where s1: "do_mmap os s ?sz = Inr s1"
    and l1: "lifecycle (trace s1) = lifecycle (trace s) @ [Map_region ?sz]"
    using do_mmap_ok [OF ok] by blast
  obtain s2 where s2: "main_prologue os s1 ?sz = Inr s2"
    and l2: "lifecycle (trace s2) = lifecycle (trace s1)"
    using main_prologue_ok [OF ok] by blast
  obtain s3 where s3: "main_epilogue os (emit s2 (Run (Bench2 (256 * 1024 * 1024)))) 1 = Inr s3"
    and l3: "lifecycle (trace s3) = lifecycle (trace s2) @ [Report]"
    using main_epilogue_ok [OF ok] by blast
  obtain s4 where s4: "main_prologue os s3 ?sz = Inr s4"
    and l4: "lifecycle (trace s4) = lifecycle (trace s3)"
    using main_prologue_ok [OF ok] by blast
  obtain s5 where s5: "main_epilogue os (emit s4 (Run (Bench3 (256 * 1024 * 1024)))) 2 = Inr s5"
    and l5: "lifecycle (trace s5) = lifecycle (trace s4) @ [Report]"
    using main_epilogue_ok [OF ok] by blast
  obtain s6 where s6: "do_munmap os s5 ?sz = Inr s6"
    and l6: "lifecycle (trace s6) = lifecycle (trace s5) @ [Unmap_region ?sz]"
    using do_munmap_ok [OF ok] by blast
  have "example4 os s = Inr s6"
    by (simp only: example4_def Let_def s1 s2 s3 s4 s5 s6 sum.case)
  with l1 l2 l3 l4 l5 l6 show ?thesis
    by (simp add: example4_lifecycle_def)
qed

lemma main_lifecycle:
  assumes ok: "os_calls_succeed os"
  shows "\<exists>s. main os = Some (Inr s)
    \<and> lifecycle (trace s) = example2_lifecycle @ example3_lifecycle @ example4_lifecycle os"
proof -
  let ?s0 = "emit init_proc Sched_setaffinity"
  let ?s2 = "emit (emit ?s0 Sched_setscheduler) (Fprintf header2)"
  have sched: "sched_setscheduler os (trace ?s0) = 0"
    using ok by (simp add: os_calls_succeed_def)
  have l0: "lifecycle (trace ?s2) = []"
    by (simp add: emit_def init_proc_def)
  obtain s3 where s3: "do_mmap os ?s2 (MEGABYTES 64) = Inr s3"
    and l3: "lifecycle (trace s3) = lifecycle (trace ?s2) @ [Map_region (MEGABYTES 64)]"
    using do_mmap_ok [OF ok] by blast
  have "\<exists>s'. example2_loop os (MEGABYTES 64) s3 (2 ^ 0) = Some (Inr s')
      \<and> lifecycle (trace s') = lifecycle (trace s3) @ replicate 13 Report"
    by (rule example2_loop_ok [OF ok]) simp_all
  then obtain s4 where s4: "example2_loop os (MEGABYTES 64) s3 1 = Some (Inr s4)"
    and l4: "lifecycle (trace s4) = lifecycle (trace s3) @ replicate 13 Report"
    by auto
  obtain s5 where s5: "do_munmap os s4 (MEGABYTES 64) = Inr s5"
    and l5: "lifecycle (trace s5) = lifecycle (trace s4) @ [Unmap_region (MEGABYTES 64)]"
    using do_munmap_ok [OF ok] by blast
  have "\<exists>s'. example3_loop os (emit s5 (Fprintf header3)) (2 ^ 10) = Some (Inr s')
      \<and> lifecycle (trace s') = lifecycle (trace (emit s5 (Fprintf header3)))
          @ concat (map (\<lambda>j. [Map_region (2 ^ j), Report, Unmap_region (2 ^ j)]) [10..<31])"
    by (rule example3_loop_ok [OF ok]) simp_all
  moreover have "KILOBYTES 1 = 2 ^ 10"
    by (simp add: KILOBYTES_def)
  ultimately obtain s6 where s6: "example3_loop os (emit s5 (Fprintf header3)) (KILOBYTES 1) = Some (Inr s6)"
    and l6: "lifecycle (trace s6) = lifecycle (trace s5) @ example3_lifecycle"
    by (auto simp: example3_lifecycle_def emit_def lifecycle_append)
  obtain s7 where s7: "example4 os (emit s6 (Fprintf header4)) = Inr s7"
    and l7: "lifecycle (trace s7) = lifecycle (trace (emit s6 (Fprintf header4))) @ example4_lifecycle os"
    using example4_ok [OF ok] by blast
  have "main os = Some (Inr s7)"
    by (simp only: main_def Let_def sched s3 s4 s5 s6 s7 sum.case option.case if_False simp_thms)
  moreover have "lifecycle (trace s7) = example2_lifecycle @ example3_lifecycle @ example4_lifecycle os"
    using l0 l3 l4 l5 l6 l7 by (simp add: example2_lifecycle_def emit_def lifecycle_append)
  ultimately show ?thesis
    by blast
qed

lemma os_ok_succeeds: "os_calls_succeed os_ok"
  by (simp add: os_calls_succeed_def os_ok_def)

lemma os_affinity_fails_succeeds: "os_calls_succeed os_affinity_fails"
  by (simp add: os_calls_succeed_def os_affinity_fails_def os_ok_def)

lemma per_iteration_example3: "per_iteration example3_lifecycle"
  by (simp add: example3_lifecycle_def upt_conv_Cons)

lemma not_per_iteration_example2: "\<not> per_iteration (example2_lifecycle @ rest)"
proof -
  have "replicate 13 Report = Report # Report # replicate 11 Report"
    by (simp add: numeral_eq_Suc)
  then show ?thesis
    by (simp add: example2_lifecycle_def)
qed

lemma count_reports:
  "count_list (example2_lifecycle @ example3_lifecycle @ example4_lifecycle os) Report = 36"
proof -
  have "count_list (replicate 13 Report) Report = 13"
    by (simp add: count_list_eq_length_filter)
  then have "count_list example2_lifecycle Report = 13"
    by (simp add: example2_lifecycle_def)
  moreover have "count_list example3_lifecycle Report = 21"
    by (simp add: example3_lifecycle_def upt_conv_Cons)
  moreover have "count_list (example4_lifecycle os) Report = 2"
    by (simp add: example4_lifecycle_def)
  ultimately show ?thesis
    by (simp add: count_list_append)
qed

lemma scheduler_failure_aborts:
  assumes "sched_setscheduler os [Sched_setaffinity] \<noteq> 0"
  shows "\<exists>s. main os = Some (Inl s)
    \<and> trace s = [Sched_setaffinity, Sched_setscheduler, Perror ''sched_setscheduler()'', Exit 1]"
  using assms by (simp add: main_def Let_def emit_def die_def init_proc_def)

subsection \<open>Runs in which system calls may fail\<close>

lemma example3_rounds_empty: "example3_rounds a a = []"
  by (simp add: example3_rounds_def)

lemma example3_rounds_first:
  "a < b \<Longrightarrow> example3_rounds a b
     = [Map_region (2 ^ a), Report, Unmap_region (2 ^ a)] @ example3_rounds (Suc a) b"
  by (simp add: example3_rounds_def upt_conv_Cons)

lemma example3_rounds_last:
  "a \<le> b \<Longrightarrow> example3_rounds a (Suc b)
     = example3_rounds a b @ [Map_region (2 ^ b), Report, Unmap_region (2 ^ b)]"
  by (simp add: example3_rounds_def)

lemma example3_lifecycle_rounds: "example3_lifecycle = example3_rounds 10 31"
  by (simp add: example3_lifecycle_def example3_rounds_def)

lemma lifecycle_die: "lifecycle (trace (die s msg)) = lifecycle (trace s)"
  by (simp add: die_def lifecycle_append)

lemma do_mmap_any:
  "lifecycle (trace (final_state (do_mmap os s sz))) = lifecycle (trace s) @ [Map_region sz]"
  by (simp add: do_mmap_def Let_def final_state_def lifecycle_die)
     (simp add: emit_def lifecycle_append)

lemma do_munmap_any:
  "lifecycle (trace (final_state (do_munmap os s sz))) = lifecycle (trace s) @ [Unmap_region sz]"
  by (simp add: do_munmap_def Let_def final_state_def lifecycle_die)
     (simp add: emit_def lifecycle_append)

lemma main_prologue_any:
  "lifecycle (trace (final_state (main_prologue os s sz))) = lifecycle (trace s)"
  by (simp add: main_prologue_def Let_def final_state_def lifecycle_die split: sum.splits prod.splits)
     (simp add: emit_def lifecycle_append)

lemma main_epilogue_any:
  "lifecycle (trace (final_state (main_epilogue os (emit s (Run w)) step)))
     = lifecycle (trace s)
       @ (case main_epilogue os (emit s (Run w)) step of Inl _ \<Rightarrow> [] | Inr _ \<Rightarrow> [Report])"
  by (simp add: main_epilogue_def Let_def final_state_def lifecycle_die split: sum.splits prod.splits)
     (simp add: emit_def lifecycle_append)

lemma final_state_simps [simp]: "final_state (Inl s) = s" "final_state (Inr s) = s"
  by (simp_all add: final_state_def)

lemma example2_loop_any:
  "n = 13 - k \<Longrightarrow> k \<le> 13 \<Longrightarrow>
    \<exists>r m. example2_loop os sz s (2 ^ k) = Some r \<and> m \<le> n
      \<and> lifecycle (trace (final_state r)) = lifecycle (trace s) @ replicate m Report
      \<and> (\<forall>s'. r = Inr s' \<longrightarrow> m = n)"
proof (induction n arbitrary: k s)
  case 0
  then have "k = 13" by simp
  then have "\<not> (2 ^ k :: size_t) \<le> 4096" by simp
  then have "example2_loop os sz s (2 ^ k) = Some (Inr s)"
    by (subst example2_loop.simps) simp
  then show ?case by simp
next
  case (Suc n)
  then have "k \<le> 12" by simp
  then have le: "(2 ^ k :: size_t) \<le> 4096"
    by (rule pow2_le_4096)
  show ?case
  proof (cases "main_prologue os s sz")
    case (Inl s1)
    then have "example2_loop os sz s (2 ^ k) = Some (Inl s1)"
      using le by (subst example2_loop.simps) simp
    moreover have "lifecycle (trace s1) = lifecycle (trace s)"
      using main_prologue_any [of os s sz] Inl by simp
    ultimately show ?thesis
      by (intro exI [of _ "Inl s1"] exI [of _ 0]) simp
  next
    case (Inr s1)
    then have l1: "lifecycle (trace s1) = lifecycle (trace s)"
      using main_prologue_any [of os s sz] by simp
    let ?w = "Bench sz (ucast (2 ^ k :: size_t))"
    show ?thesis
    proof (cases "main_epilogue os (emit s1 (Run ?w)) (2 ^ k)")
      case (Inl s2)
      then have "example2_loop os sz s (2 ^ k) = Some (Inl s2)"
        using le Inr by (subst example2_loop.simps) simp
      moreover have "lifecycle (trace s2) = lifecycle (trace s)"
        using main_epilogue_any [of os s1 ?w "2 ^ k"] Inl l1 by simp
      ultimately show ?thesis
        by (intro exI [of _ "Inl s2"] exI [of _ 0]) simp
    next
      case s2: (Inr s2)
      then have l2: "lifecycle (trace s2) = lifecycle (trace s) @ [Report]"
        using main_epilogue_any [of os s1 ?w "2 ^ k"] l1 by simp
      have "n = 13 - Suc k" and "Suc k \<le> 13"
        using Suc.prems by simp_all
      then obtain r m where r: "example2_loop os sz s2 (2 ^ Suc k) = Some r" and m: "m \<le> n"
        and lr: "lifecycle (trace (final_state r)) = lifecycle (trace s2) @ replicate m Report"
        and full: "\<forall>s'. r = Inr s' \<longrightarrow> m = n"
        using Suc.IH by blast
      have "example2_loop os sz s (2 ^ k) = Some r"
        using le by (subst example2_loop.simps) (simp only: Inr s2 r push_bit1_pow2 if_True sum.case)
      moreover have "lifecycle (trace (final_state r)) = lifecycle (trace s) @ replicate (Suc m) Report"
        using lr l2 by simp
      ultimately show ?thesis
        using m full by (intro exI [of _ r] exI [of _ "Suc m"]) simp
    qed
  qed
qed

lemma example3_loop_any:
  "n = 31 - k \<Longrightarrow> 10 \<le> k \<Longrightarrow> k \<le> 31 \<Longrightarrow>
    \<exists>r. example3_loop os s (2 ^ k) = Some r
      \<and> (case r of
            Inr s' \<Rightarrow> lifecycle (trace s') = lifecycle (trace s) @ example3_rounds k 31
          | Inl s' \<Rightarrow> \<exists>j. k \<le> j \<and> j < 31
              \<and> (lifecycle (trace s')
                    = lifecycle (trace s) @ example3_rounds k j @ [Map_region (2 ^ j)]
                  \<or> lifecycle (trace s') = lifecycle (trace s) @ example3_rounds k (Suc j)))"
proof (induction n arbitrary: k s)
  case 0
  then have k: "k = 31" by simp
  then have "\<not> (2 ^ k :: size_t) \<le> GIGABYTES 1" by (simp add: GIGABYTES_def)
  then have "example3_loop os s (2 ^ k) = Some (Inr s)"
    by (subst example3_loop.simps) simp
  then show ?case
    using k by (simp add: example3_rounds_empty)
next
  case (Suc n)
  then have k: "k \<le> 30" by simp
  then have k31: "k < 31" by simp
  from k have le: "(2 ^ k :: size_t) \<le> GIGABYTES 1"
    by (rule pow2_le_GIGABYTES)
  let ?len = "drop_bit (ffs sizeof_uint32_t - 1) (2 ^ k :: size_t)"
  let ?w = "Bench1 ?len (ucast (MEGABYTES 64))"
  have sz: "?len * ucast sizeof_uint32_t = 2 ^ k"
    using Suc.prems k by (intro region_size_pow2) simp_all
  have died_early: "\<exists>j. k \<le> j \<and> j < 31
        \<and> (lifecycle (trace s') = lifecycle (trace s) @ example3_rounds k j @ [Map_region (2 ^ j)]
            \<or> lifecycle (trace s') = lifecycle (trace s) @ example3_rounds k (Suc j))"
    if "lifecycle (trace s') = lifecycle (trace s) @ [Map_region (2 ^ k)]" for s'
    using that k31 by (intro exI [of _ k]) (simp add: example3_rounds_empty)
  show ?case
  proof (cases "do_mmap os s (2 ^ k)")
    case (Inl s1)
    then have run: "example3_loop os s (2 ^ k) = Some (Inl s1)"
      using le by (subst example3_loop.simps) (simp only: Let_def sz Inl if_True sum.case)
    have l: "lifecycle (trace s1) = lifecycle (trace s) @ [Map_region (2 ^ k)]"
      using do_mmap_any [of os s "2 ^ k"] Inl by simp
    from died_early [OF l] run show ?thesis
      by simp
  next
    case s1: (Inr s1)
    then have l1: "lifecycle (trace s1) = lifecycle (trace s) @ [Map_region (2 ^ k)]"
      using do_mmap_any [of os s "2 ^ k"] by simp
    show ?thesis
    proof (cases "main_prologue os s1 (2 ^ k)")
      case (Inl s2)
      then have run: "example3_loop os s (2 ^ k) = Some (Inl s2)"
        using le by (subst example3_loop.simps) (simp only: Let_def sz s1 Inl if_True sum.case)
      have l: "lifecycle (trace s2) = lifecycle (trace s) @ [Map_region (2 ^ k)]"
        using main_prologue_any [of os s1 "2 ^ k"] Inl l1 by simp
      from died_early [OF l] run show ?thesis
        by simp
    next
      case s2: (Inr s2)
      then have l2: "lifecycle (trace s2) = lifecycle (trace s) @ [Map_region (2 ^ k)]"
        using main_prologue_any [of os s1 "2 ^ k"] l1 by simp
      show ?thesis
      proof (cases "main_epilogue os (emit s2 (Run ?w)) (2 ^ k)")
        case (Inl s3)
        then have run: "example3_loop os s (2 ^ k) = Some (Inl s3)"
          using le by (subst example3_loop.simps) (simp only: Let_def sz s1 s2 Inl if_True sum.case)
        have l: "lifecycle (trace s3) = lifecycle (trace s) @ [Map_region (2 ^ k)]"
          using main_epilogue_any [of os s2 ?w "2 ^ k"] Inl l2 by simp
        from died_early [OF l] run show ?thesis
          by simp
      next
        case s3: (Inr s3)
        then have l3: "lifecycle (trace s3) = lifecycle (trace s) @ [Map_region (2 ^ k), Report]"
          using main_epilogue_any [of os s2 ?w "2 ^ k"] l2 by simp
        show ?thesis
        proof (cases "do_munmap os s3 (2 ^ k)")
          case (Inl s4)
          then have "example3_loop os s (2 ^ k) = Some (Inl s4)"
            using le
            by (subst example3_loop.simps) (simp only: Let_def sz s1 s2 s3 Inl if_True sum.case)
          moreover have "lifecycle (trace s4) = lifecycle (trace s) @ example3_rounds k (Suc k)"
            using do_munmap_any [of os s3 "2 ^ k"] Inl l3
            by (simp add: example3_rounds_last example3_rounds_empty)
          ultimately show ?thesis
            using k31 by (auto intro!: exI [of _ k])
        next
          case s4: (Inr s4)
          then have l4: "lifecycle (trace s4)
              = lifecycle (trace s) @ [Map_region (2 ^ k), Report, Unmap_region (2 ^ k)]"
            using do_munmap_any [of os s3 "2 ^ k"] l3 by simp
          have "n = 31 - Suc k" and "10 \<le> Suc k" and "Suc k \<le> 31"
            using Suc.prems by simp_all
          then obtain r where r: "example3_loop os s4 (2 ^ Suc k) = Some r"
            and lr: "case r of
                Inr s' \<Rightarrow> lifecycle (trace s') = lifecycle (trace s4) @ example3_rounds (Suc k) 31
              | Inl s' \<Rightarrow> \<exists>j. Suc k \<le> j \<and> j < 31
                  \<and> (lifecycle (trace s')
                        = lifecycle (trace s4) @ example3_rounds (Suc k) j @ [Map_region (2 ^ j)]
                      \<or> lifecycle (trace s')
                        = lifecycle (trace s4) @ example3_rounds (Suc k) (Suc j))"
            using Suc.IH by blast
          have run: "example3_loop os s (2 ^ k) = Some r"
            using le
            by (subst example3_loop.simps)
               (simp only: Let_def sz s1 s2 s3 s4 r push_bit1_pow2 if_True sum.case)
          show ?thesis
          proof (cases r)
            case (Inr s')
            with lr l4 k31 have "lifecycle (trace s') = lifecycle (trace s) @ example3_rounds k 31"
              by (simp add: example3_rounds_first)
            with run Inr show ?thesis by simp
          next
            case (Inl s')
            with lr obtain j where j: "Suc k \<le> j" "j < 31"
              and d: "lifecycle (trace s')
                        = lifecycle (trace s4) @ example3_rounds (Suc k) j @ [Map_region (2 ^ j)]
                      \<or> lifecycle (trace s')
                        = lifecycle (trace s4) @ example3_rounds (Suc k) (Suc j)"
              by auto
            from j have kj: "k < j" "k < Suc j" "k \<le> j" by simp_all
            from d l4 have "lifecycle (trace s')
                        = lifecycle (trace s) @ example3_rounds k j @ [Map_region (2 ^ j)]
                      \<or> lifecycle (trace s') = lifecycle (trace s) @ example3_rounds k (Suc j)"
              by (simp add: example3_rounds_first [OF kj(1)] example3_rounds_first [OF kj(2)])
            with run Inl j kj show ?thesis
              by (auto intro!: exI [of _ j])
          qed
        qed
      qed
    qed
  qed
qed

lemma example4_any:
  "\<exists>m\<le>4. lifecycle (trace (final_state (example4 os s)))
        = lifecycle (trace s) @ take m (example4_lifecycle os)
      \<and> (\<forall>s'. example4 os s = Inr s' \<longrightarrow> m = 4)"
proof -
  let ?sz = "scast (getpagesize os) :: size_t"
  let ?w2 = "Bench2 (256 * 1024 * 1024)"
  let ?w3 = "Bench3 (256 * 1024 * 1024)"
  show ?thesis
  proof (cases "do_mmap os s ?sz")
    case (Inl s1)
    then have "example4 os s = Inl s1"
      by (simp only: example4_def Let_def sum.case)
    moreover have "lifecycle (trace s1) = lifecycle (trace s) @ [Map_region ?sz]"
      using do_mmap_any [of os s ?sz] Inl by simp
    ultimately show ?thesis
      by (intro exI [of _ 1]) (simp add: example4_lifecycle_def)
  next
    case s1: (Inr s1)
    then have l1: "lifecycle (trace s1) = lifecycle (trace s) @ [Map_region ?sz]"
      using do_mmap_any [of os s ?sz] by simp
    show ?thesis
    proof (cases "main_prologue os s1 ?sz")
      case (Inl s2)
      then have "example4 os s = Inl s2"
        by (simp only: example4_def Let_def s1 sum.case)
      moreover have "lifecycle (trace s2) = lifecycle (trace s) @ [Map_region ?sz]"
        using main_prologue_any [of os s1 ?sz] Inl l1 by simp
      ultimately show ?thesis
        by (intro exI [of _ 1]) (simp add: example4_lifecycle_def)
    next
      case s2: (Inr s2)
      then have l2: "lifecycle (trace s2) = lifecycle (trace s) @ [Map_region ?sz]"
        using main_prologue_any [of os s1 ?sz] l1 by simp
      show ?thesis
      proof (cases "main_epilogue os (emit s2 (Run ?w2)) 1")
        case (Inl s3)
        then have "example4 os s = Inl s3"
          by (simp only: example4_def Let_def s1 s2 sum.case)
        moreover have "lifecycle (trace s3) = lifecycle (trace s) @ [Map_region ?sz]"
          using main_epilogue_any [of os s2 ?w2 1] Inl l2 by simp
        ultimately show ?thesis
          by (intro exI [of _ 1]) (simp add: example4_lifecycle_def)
      next
        case s3: (Inr s3)
        then have l3: "lifecycle (trace s3) = lifecycle (trace s) @ [Map_region ?sz, Report]"
          using main_epilogue_any [of os s2 ?w2 1] l2 by simp
        show ?thesis
        proof (cases "main_prologue os s3 ?sz")
          case (Inl s4)
          then have "example4 os s = Inl s4"
            by (simp only: example4_def Let_def s1 s2 s3 sum.case)
          moreover have "lifecycle (trace s4) = lifecycle (trace s) @ [Map_region ?sz, Report]"
            using main_prologue_any [of os s3 ?sz] Inl l3 by simp
          ultimately show ?thesis
            by (intro exI [of _ 2]) (simp add: example4_lifecycle_def)
        next
          case s4: (Inr s4)
          then have l4: "lifecycle (trace s4) = lifecycle (trace s) @ [Map_region ?sz, Report]"
            using main_prologue_any [of os s3 ?sz] l3 by simp
          show ?thesis
          proof (cases "main_epilogue os (emit s4 (Run ?w3)) 2")
            case (Inl s5)
            then have "example4 os s = Inl s5"
              by (simp only: example4_def Let_def s1 s2 s3 s4 sum.case)
            moreover have "lifecycle (trace s5) = lifecycle (trace s) @ [Map_region ?sz, Report]"
              using main_epilogue_any [of os s4 ?w3 2] Inl l4 by simp
            ultimately show ?thesis
              by (intro exI [of _ 2]) (simp add: example4_lifecycle_def)
          next
            case s5: (Inr s5)
            then have l5: "lifecycle (trace s5)
                = lifecycle (trace s) @ [Map_region ?sz, Report, Report]"
              using main_epilogue_any [of os s4 ?w3 2] l4 by simp
            have run: "example4 os s = do_munmap os s5 ?sz"
              by (simp only: example4_def Let_def s1 s2 s3 s4 s5 sum.case)
            have "lifecycle (trace (final_state (example4 os s)))
                = lifecycle (trace s) @ example4_lifecycle os"
              unfolding run using do_munmap_any [of os s5 ?sz] l5
              by (simp add: example4_lifecycle_def)
            then show ?thesis
              by (intro exI [of _ 4]) (simp add: example4_lifecycle_def)
          qed
        qed
      qed
    qed
  qed
qed

lemma take_example2_lifecycle:
  "m \<le> 13 \<Longrightarrow> take (Suc m) example2_lifecycle = Map_region (MEGABYTES 64) # replicate m Report"
  by (simp add: example2_lifecycle_def min_def)

lemma length_example2_lifecycle: "length example2_lifecycle = 15"
  by (simp add: example2_lifecycle_def)

lemma main_lifecycle_any:
  "\<exists>r. main os = Some r
    \<and> (case r of
          Inr s \<Rightarrow>
            lifecycle (trace s) = example2_lifecycle @ example3_lifecycle @ example4_lifecycle os
        | Inl s \<Rightarrow>
            (\<exists>n\<le>15. lifecycle (trace s) = take n example2_lifecycle)
          \<or> (\<exists>j. 10 \<le> j \<and> j < 31
                \<and> (lifecycle (trace s)
                      = example2_lifecycle @ example3_rounds 10 j @ [Map_region (2 ^ j)]
                    \<or> lifecycle (trace s) = example2_lifecycle @ example3_rounds 10 (Suc j)))
          \<or> (\<exists>m\<le>4. lifecycle (trace s)
                = example2_lifecycle @ example3_lifecycle @ take m (example4_lifecycle os)))"
proof -
  let ?s0 = "emit init_proc Sched_setaffinity"
  let ?s1 = "emit ?s0 Sched_setscheduler"
  let ?s2 = "emit ?s1 (Fprintf header2)"
  let ?M = "MEGABYTES 64"
  let ?died2 = "\<lambda>s. \<exists>n\<le>15. lifecycle (trace s) = take n example2_lifecycle"
  have l0: "lifecycle (trace ?s2) = []" and l01: "lifecycle (trace ?s1) = []"
    by (simp_all add: emit_def init_proc_def)
  show ?thesis
  proof (cases "sched_setscheduler os (trace ?s0) = 0")
    case False
    then have "main os = Some (Inl (die ?s1 ''sched_setscheduler()''))"
      by (simp add: main_def Let_def)
    moreover have "lifecycle (trace (die ?s1 ''sched_setscheduler()'')) = take 0 example2_lifecycle"
      using l01 by (simp add: lifecycle_die)
    ultimately show ?thesis
      by (auto intro!: exI [of _ 0])
  next
    case sched: True
    show ?thesis
    proof (cases "do_mmap os ?s2 ?M")
      case (Inl s3)
      then have "main os = Some (Inl s3)"
        by (simp only: main_def Let_def sched sum.case simp_thms if_False)
      moreover have "lifecycle (trace s3) = take (Suc 0) example2_lifecycle"
        using do_mmap_any [of os ?s2 ?M] Inl l0 by (simp add: take_example2_lifecycle)
      ultimately show ?thesis
        by (auto intro!: exI [of _ "Suc 0"])
    next
      case s3: (Inr s3)
      then have l3: "lifecycle (trace s3) = [Map_region ?M]"
        using do_mmap_any [of os ?s2 ?M] l0 by simp
      have "\<exists>r m. example2_loop os ?M s3 (2 ^ 0) = Some r \<and> m \<le> 13
          \<and> lifecycle (trace (final_state r)) = lifecycle (trace s3) @ replicate m Report
          \<and> (\<forall>s'. r = Inr s' \<longrightarrow> m = 13)"
        by (rule example2_loop_any) simp_all
      then obtain r2 m where r2: "example2_loop os ?M s3 1 = Some r2" and m: "m \<le> 13"
        and lr2: "lifecycle (trace (final_state r2)) = Map_region ?M # replicate m Report"
        and full2: "\<forall>s'. r2 = Inr s' \<longrightarrow> m = 13"
        using l3 by auto
      show ?thesis
      proof (cases r2)
        case (Inl s4)
        then have "main os = Some (Inl s4)"
          using r2 by (simp only: main_def Let_def sched s3 sum.case option.case simp_thms if_False)
        moreover have "lifecycle (trace s4) = take (Suc m) example2_lifecycle"
          using lr2 Inl m by (simp add: take_example2_lifecycle)
        ultimately show ?thesis
          using m by (auto intro!: exI [of _ "Suc m"])
      next
        case s4: (Inr s4)
        with full2 lr2 have l4: "lifecycle (trace s4) = Map_region ?M # replicate 13 Report"
          by simp
        from s4 r2 have r2': "example2_loop os ?M s3 1 = Some (Inr s4)" by simp
        show ?thesis
        proof (cases "do_munmap os s4 ?M")
          case (Inl s5)
          then have "main os = Some (Inl s5)"
            by (simp only: main_def Let_def sched s3 r2' sum.case option.case simp_thms if_False)
          moreover have "lifecycle (trace s5) = take 15 example2_lifecycle"
            using do_munmap_any [of os s4 ?M] Inl l4 by (simp add: example2_lifecycle_def)
          ultimately show ?thesis
            by (auto intro!: exI [of _ 15])
        next
          case s5: (Inr s5)
          then have l5: "lifecycle (trace s5) = example2_lifecycle"
            using do_munmap_any [of os s4 ?M] l4 by (simp add: example2_lifecycle_def)
          let ?s5' = "emit s5 (Fprintf header3)"
          have l5': "lifecycle (trace ?s5') = example2_lifecycle"
            using l5 by (simp add: emit_def lifecycle_append)
          have "\<exists>r. example3_loop os ?s5' (2 ^ 10) = Some r
            \<and> (case r of
                  Inr s' \<Rightarrow> lifecycle (trace s') = lifecycle (trace ?s5') @ example3_rounds 10 31
                | Inl s' \<Rightarrow> \<exists>j. 10 \<le> j \<and> j < 31
                    \<and> (lifecycle (trace s')
                          = lifecycle (trace ?s5') @ example3_rounds 10 j @ [Map_region (2 ^ j)]
                        \<or> lifecycle (trace s')
                          = lifecycle (trace ?s5') @ example3_rounds 10 (Suc j)))"
            by (rule example3_loop_any) simp_all
          moreover have "KILOBYTES 1 = 2 ^ 10"
            by (simp add: KILOBYTES_def)
          ultimately obtain r3 where r3: "example3_loop os ?s5' (KILOBYTES 1) = Some r3"
            and lr3: "case r3 of
                  Inr s' \<Rightarrow> lifecycle (trace s') = example2_lifecycle @ example3_lifecycle
                | Inl s' \<Rightarrow> \<exists>j. 10 \<le> j \<and> j < 31
                    \<and> (lifecycle (trace s')
                          = example2_lifecycle @ example3_rounds 10 j @ [Map_region (2 ^ j)]
                        \<or> lifecycle (trace s')
                          = example2_lifecycle @ example3_rounds 10 (Suc j))"
            unfolding l5' example3_lifecycle_rounds by auto
          show ?thesis
          proof (cases r3)
            case (Inl s6)
            then have "main os = Some (Inl s6)"
              using r3
              by (simp only: main_def Let_def sched s3 r2' s5 sum.case option.case simp_thms if_False)
            with lr3 Inl show ?thesis
              by simp
          next
            case s6: (Inr s6)
            with lr3 have l6: "lifecycle (trace s6) = example2_lifecycle @ example3_lifecycle"
              by simp
            let ?s6' = "emit s6 (Fprintf header4)"
            have l6': "lifecycle (trace ?s6') = example2_lifecycle @ example3_lifecycle"
              using l6 by (simp add: emit_def lifecycle_append)
            from s6 r3 have r3': "example3_loop os ?s5' (KILOBYTES 1) = Some (Inr s6)" by simp
            have run: "main os = Some (example4 os ?s6')"
              by (simp only: main_def Let_def sched s3 r2' s5 r3' sum.case option.case simp_thms
                    if_False)
            obtain m4 where m4: "m4 \<le> 4"
              and l7: "lifecycle (trace (final_state (example4 os ?s6')))
                  = lifecycle (trace ?s6') @ take m4 (example4_lifecycle os)"
              and full4: "\<forall>s'. example4 os ?s6' = Inr s' \<longrightarrow> m4 = 4"
              using example4_any [of os ?s6'] by blast
            show ?thesis
            proof (cases "example4 os ?s6'")
              case (Inl s7)
              with l7 l6' have "lifecycle (trace s7)
                  = example2_lifecycle @ example3_lifecycle @ take m4 (example4_lifecycle os)"
                by simp
              with run Inl m4 show ?thesis
                by auto
            next
              case (Inr s7)
              with full4 have "m4 = 4" by simp
              with l7 l6' Inr have "lifecycle (trace s7)
                  = example2_lifecycle @ example3_lifecycle @ example4_lifecycle os"
                by (simp add: example4_lifecycle_def)
              with run Inr show ?thesis
                by simp
            qed
          qed
        qed
      qed
    qed
  qed
qed

text \<open>
  A run that dies inside an iteration of the working-set experiment: \<open>getrusage\<close> fails
  in the epilogue of the first iteration, before its report line, and the region of
  that iteration is never unmapped.
\<close>

lemma getrusage_failure_leaves_region_mapped:
  "map_option (map_sum (lifecycle \<circ> trace) (lifecycle \<circ> trace)) (main os_getrusage_fails)
     = Some (Inl (example2_lifecycle @ [Map_region 1024]))"
  by code_simp

text \<open>
  Claim C3, as amended. On a system with a positive page size, in every run, whether
  system calls fail or not, the map calls, report lines and unmap calls are an initial
  part of this sequence, and the whole of it when the run returns (as it does, with
  status 0, when every checked call succeeds): for the stride experiment one map of
  64 MB before the first iteration, 13 report lines, one unmap after the last; for each
  of the 21 iterations of the working-set experiment exactly one map call, its report
  line and directly after it exactly one matching unmap call; for the last experiment
  one map of a page, 2 report lines, one unmap. A run that dies in the working-set
  experiment dies either before the report line of the current iteration, after that
  iteration's one map call, or at its unmap call, never between the report line and
  the unmap call.
\<close>

theorem region_lifecycle:
  assumes "0 < sint (getpagesize os)"
  shows "\<exists>r. main os = Some r
    \<and> (case r of
          Inr s \<Rightarrow>
            lifecycle (trace s) = example2_lifecycle @ example3_lifecycle @ example4_lifecycle os
        | Inl s \<Rightarrow>
            (\<exists>n\<le>15. lifecycle (trace s) = take n example2_lifecycle)
          \<or> (\<exists>j. 10 \<le> j \<and> j < 31
                \<and> (lifecycle (trace s)
                      = example2_lifecycle @ example3_rounds 10 j @ [Map_region (2 ^ j)]
                    \<or> lifecycle (trace s) = example2_lifecycle @ example3_rounds 10 (Suc j)))
          \<or> (\<exists>m\<le>4. lifecycle (trace s)
                = example2_lifecycle @ example3_lifecycle @ take m (example4_lifecycle os)))
    \<and> (os_calls_succeed os \<longrightarrow> (\<exists>s. r = Inr s \<and> exit_status r = 0))
    \<and> example3_lifecycle = example3_rounds 10 31
    \<and> per_iteration example3_lifecycle"
proof -
  obtain r where r: "main os = Some r"
    and l: "case r of
          Inr s \<Rightarrow>
            lifecycle (trace s) = example2_lifecycle @ example3_lifecycle @ example4_lifecycle os
        | Inl s \<Rightarrow>
            (\<exists>n\<le>15. lifecycle (trace s) = take n example2_lifecycle)
          \<or> (\<exists>j. 10 \<le> j \<and> j < 31
                \<and> (lifecycle (trace s)
                      = example2_lifecycle @ example3_rounds 10 j @ [Map_region (2 ^ j)]
                    \<or> lifecycle (trace s) = example2_lifecycle @ example3_rounds 10 (Suc j)))
          \<or> (\<exists>m\<le>4. lifecycle (trace s)
                = example2_lifecycle @ example3_lifecycle @ take m (example4_lifecycle os))"
    using main_lifecycle_any [of os] by blast
  have "\<exists>s. r = Inr s \<and> exit_status r = 0" if "os_calls_succeed os"
  proof -
    from main_lifecycle [OF that] obtain s where "main os = Some (Inr s)"
      by blast
    with r have "r = Inr s" by simp
    then show ?thesis by (simp add: exit_status_def)
  qed
  with r l show ?thesis
    using example3_lifecycle_rounds per_iteration_example3 by blast
qed

theorem region_lifecycle_witness:
  "0 < sint (getpagesize os_ok) \<and> os_calls_succeed os_ok
   \<and> (\<exists>s. main os_ok = Some (Inr s)
        \<and> lifecycle (trace s) = example2_lifecycle @ example3_lifecycle @ example4_lifecycle os_ok)"
proof -
  have h: "0 < sint (getpagesize os_ok)"
    by (simp add: os_ok_def)
  from region_lifecycle [OF h] os_ok_succeeds obtain r s where "main os_ok = Some r"
    and "case r of
          Inr s \<Rightarrow>
            lifecycle (trace s) = example2_lifecycle @ example3_lifecycle @ example4_lifecycle os_ok
        | Inl s \<Rightarrow>
            (\<exists>n\<le>15. lifecycle (trace s) = take n example2_lifecycle)
          \<or> (\<exists>j. 10 \<le> j \<and> j < 31
                \<and> (lifecycle (trace s)
                      = example2_lifecycle @ example3_rounds 10 j @ [Map_region (2 ^ j)]
                    \<or> lifecycle (trace s) = example2_lifecycle @ example3_rounds 10 (Suc j)))
          \<or> (\<exists>m\<le>4. lifecycle (trace s)
                = example2_lifecycle @ example3_lifecycle @ take m (example4_lifecycle os_ok))"
    and "r = Inr s"
    by blast
  then show ?thesis
    using h os_ok_succeeds by auto
qed

text \<open>
  Claim C3 as stated fails on the run in which every call succeeds: its lifecycle is not
  made of rounds of one map, one report line and one unmap, because the first region
  serves 13 report lines.
\<close>

theorem map_per_iteration_counterexample:
  "\<not> (\<exists>s. main os_ok = Some (Inr s) \<and> per_iteration (lifecycle (trace s)))"
proof
  assume "\<exists>s. main os_ok = Some (Inr s) \<and> per_iteration (lifecycle (trace s))"
  then obtain s where s: "main os_ok = Some (Inr s)" and p: "per_iteration (lifecycle (trace s))"
    by blast
  from main_lifecycle [OF os_ok_succeeds] s
  have "lifecycle (trace s) = example2_lifecycle @ example3_lifecycle @ example4_lifecycle os_ok"
    by auto
  with p show False
    using not_per_iteration_example2 by simp
qed

text \<open>
  Claim C2 (a defect of the code). On an operating system where \<open>sched_setaffinity\<close>
  fails (returns -1) and every other call succeeds, \<open>main\<close> does not abort: it runs to
  the end, exits with status 0 and prints all 36 report lines. The failure of
  \<open>sched_setscheduler\<close>, in contrast, aborts before any measurement
  (\<open>scheduler_failure_aborts\<close>).
\<close>

theorem affinity_failure_ignored:
  "sched_setaffinity os_affinity_fails [] = - 1
   \<and> (\<exists>s. main os_affinity_fails = Some (Inr s)
        \<and> exit_status (Inr s) = 0
        \<and> count_list (lifecycle (trace s)) Report = 36)"
proof -
  from main_lifecycle [OF os_affinity_fails_succeeds]
  obtain s where "main os_affinity_fails = Some (Inr s)"
    and "lifecycle (trace s)
      = example2_lifecycle @ example3_lifecycle @ example4_lifecycle os_affinity_fails"
    by blast
  moreover have "exit_status (Inr s) = 0"
    by (simp add: exit_status_def)
  moreover have "sched_setaffinity os_affinity_fails [] = - 1"
    by (simp add: os_affinity_fails_def)
  ultimately show ?thesis
    using count_reports [of os_affinity_fails] by auto
qed

end
